theory Spec2Isabelle
  imports Main
begin

section \<open>Data model of \<open>src/classes/Trades.ts\<close>\<close>

text \<open>
  The class \<open>Trades\<close> sits between the trade-offer manager (the Gateway) and the
  handler that decides on offers.  Its own fields are \<open>itemsInTrade\<close>,
  \<open>receivedOffers\<close>, \<open>processingOffer\<close> and \<open>pollCount\<close>.  Everything asynchronous in the
  class is a promise whose callback runs later; JavaScript runs one callback at a time, so
  a callback is one atomic step of the model and the promises that have not settled yet
  are kept in the state.
\<close>

text \<open>The states of an offer, \<open>TradeOfferManager.ETradeOfferState\<close> (declared by the library).\<close>

datatype ETradeOfferState =
    Invalid | Active | Accepted | Countered | Expired | Canceled | Declined
  | InvalidItems | CreatedNeedsConfirmation | CanceledBySecondFactor | InEscrow

text \<open>
  An \<open>EconItem\<close> of the library.  The class reads \<open>item.assetid\<close> and, in one place,
  \<open>item.id\<close>; both are fields of the item and are kept apart here.
\<close>

record EconItem =
  appid :: nat
  contextid :: string
  assetid :: string
  item_id :: string
  amount :: nat

text \<open>The result of \<open>mapItem\<close>: the four fields \<open>appid\<close>, \<open>contextid\<close>, \<open>assetid\<close>, \<open>amount\<close>.\<close>

datatype TradeOfferItem = TradeOfferItem nat string string nat

text \<open>An error object; the class only looks at \<open>err.message\<close>.\<close>

datatype error = Error (message: string)

text \<open>The handler's answer; the class only looks at \<open>response.action\<close>.\<close>

datatype response = Response (action: string)

text \<open>
  The metadata bag of an offer, read and written with \<open>offer.data(key)\<close> and
  \<open>offer.data(key, value)\<close>.  A key that is absent reads as \<open>undefined\<close> (\<open>None\<close>);
  storing \<open>undefined\<close> makes the key read as \<open>undefined\<close> again.  The values are the
  ones this class stores: numbers (timestamps and durations in milliseconds), booleans,
  \<open>null\<close>, item lists and the handler's response.
\<close>

datatype data_value =
    DNum int | DBool bool | DNull | DItems "TradeOfferItem list" | DResponse response

type_synonym offer_data = "(string \<times> data_value) list"

definition data_get :: "offer_data \<Rightarrow> string \<Rightarrow> data_value option" where
  "data_get d k = map_of d k"

definition data_set :: "string \<Rightarrow> data_value option \<Rightarrow> offer_data \<Rightarrow> offer_data" where
  "data_set k v d =
     (case v of
        None \<Rightarrow> filter (\<lambda>p. fst p \<noteq> k) d
      | Some x \<Rightarrow> (k, x) # filter (\<lambda>p. fst p \<noteq> k) d)"

text \<open>A \<open>TradeOffer\<close>: its id, state, the items given away, who created it, and its bag.\<close>

record offer =
  oid :: nat
  state :: ETradeOfferState
  itemsToGive :: "EconItem list"
  isOurOffer :: bool
  data :: offer_data

definition offer_data_set :: "string \<Rightarrow> data_value option \<Rightarrow> offer \<Rightarrow> offer" where
  "offer_data_set k v offer = offer\<lparr>data := data_set k v (data offer)\<rparr>"

text \<open>
  JavaScript's \<open>ToNumber\<close> on a bag value, \<open>None\<close> standing for \<open>NaN\<close>: \<open>undefined\<close> is
  \<open>NaN\<close>, \<open>null\<close> is 0, \<open>true\<close> is 1, \<open>false\<close> is 0, the empty array is 0, and an array
  of objects or an object is \<open>NaN\<close>.
\<close>

fun toNumber :: "data_value option \<Rightarrow> int option" where
  "toNumber None = None"
| "toNumber (Some (DNum n)) = Some n"
| "toNumber (Some (DBool b)) = Some (if b then 1 else 0)"
| "toNumber (Some DNull) = Some 0"
| "toNumber (Some (DItems [])) = Some 0"
| "toNumber (Some (DItems (x # xs))) = None"
| "toNumber (Some (DResponse r)) = None"

text \<open>
  \<open>a - v\<close> for a number \<open>a\<close> and a bag value \<open>v\<close>; \<open>NaN\<close> propagates.  The numbers
  of the class are millisecond timestamps and their differences: integers far below
  \<open>2 ^ 53\<close>, where the subtraction of JavaScript's doubles is the subtraction of
  integers.  Beyond that range the code rounds and this definition does not; nothing
  below depends on a number of that size.
\<close>

definition js_minus :: "int \<Rightarrow> data_value option \<Rightarrow> int option" where
  "js_minus a v = (case toNumber v of None \<Rightarrow> None | Some n \<Rightarrow> Some (a - n))"

subsection \<open>Array helpers\<close>

text \<open>\<open>Array.prototype.indexOf\<close>: the first index of the element, \<open>None\<close> for \<open>-1\<close>.\<close>

fun indexOf :: "'a list \<Rightarrow> 'a \<Rightarrow> nat option" where
  "indexOf [] x = None"
| "indexOf (y # ys) x = (if y = x then Some 0 else map_option Suc (indexOf ys x))"

text \<open>\<open>xs.splice(i, 1)\<close>: the array without the element at index \<open>i\<close>.\<close>

definition splice1 :: "nat \<Rightarrow> 'a list \<Rightarrow> 'a list" where
  "splice1 i xs = take i xs @ drop (Suc i) xs"

section \<open>The offer Fetcher: \<open>fetchOffer\<close>\<close>

text \<open>
  What \<open>fetchOffer\<close> does to the outside: calls of \<open>manager.getOffer\<close>, forced session
  refreshes \<open>bot.getWebSession(true)\<close>, and waits \<open>Promise.delay(ms)\<close>.
\<close>

datatype net_effect = GetOffer nat | GetWebSession bool | Delay nat

text \<open>
  The Gateway is a script: the list of the answers \<open>manager.getOffer\<close> gives to the
  successive calls, \<open>Inl err\<close> for \<open>callback(err)\<close> and \<open>Inr offer\<close> for
  \<open>callback(null, offer)\<close>, and the list of the answers of \<open>getWebSession\<close>, \<open>None\<close> for a
  refresh that succeeded (the callback's \<open>err\<close> is \<open>null\<close>).  When a script has no
  answer left the callback is never called and the promise stays pending: the result is
  \<open>None\<close>.  The result of a settled promise is \<open>Inl err\<close> for \<open>reject(err)\<close>,
  \<open>Inr None\<close> for \<open>resolve(null)\<close> and \<open>Inr (Some offer)\<close> for \<open>resolve(offer)\<close>; it comes
  with the effects so far, oldest first.  \<open>exponentialBackoff\<close> lives in \<open>lib/helpers\<close>
  and is a parameter.
\<close>

fun fetchOffer ::
  "(nat \<Rightarrow> nat) \<Rightarrow> nat \<Rightarrow> nat \<Rightarrow> (error + offer) list \<Rightarrow> error option list \<Rightarrow> net_effect list
   \<Rightarrow> ((error + offer option) \<times> net_effect list) option" where
  "fetchOffer exponentialBackoff offerId attempts [] ws tr = None"
| "fetchOffer exponentialBackoff offerId attempts (r # gw) ws tr =
     (let attempts' = attempts + 1; tr1 = tr @ [GetOffer offerId] in
      case r of
        Inl err \<Rightarrow>
          if message err = ''NoMatch'' \<or> message err = ''No matching offer found''
          then Some (Inr None, tr1)
          else if attempts' > 5
          then Some (Inl err, tr1)
          else if message err \<noteq> ''Not Logged In''
          then fetchOffer exponentialBackoff offerId attempts' gw ws
                 (tr1 @ [Delay (exponentialBackoff attempts')])
          else (case ws of
                  [] \<Rightarrow> None
                | werr # ws' \<Rightarrow>
                    fetchOffer exponentialBackoff offerId attempts' gw ws'
                      (tr1 @ [GetWebSession True,
                              Delay (if werr \<noteq> None then 0 else exponentialBackoff attempts')]))
      | Inr offer \<Rightarrow>
          if state offer \<noteq> Active
          then Some (Inr None, tr1)
          else Some (Inr (Some offer), tr1))"

text \<open>The number of \<open>getOffer\<close> calls among the effects.\<close>

fun is_GetOffer :: "net_effect \<Rightarrow> bool" where
  "is_GetOffer (GetOffer i) = True"
| "is_GetOffer e = False"

definition getOffer_calls :: "net_effect list \<Rightarrow> nat" where
  "getOffer_calls tr = length (filter is_GetOffer tr)"

section \<open>The state of the class and of its outstanding promises\<close>

text \<open>
  A promise of the processing pipeline that has not settled:
  \<^item> \<open>Fetch offerId\<close>: \<open>this.fetchOffer(offerId)\<close> started by \<open>processNextOffer\<close>;
  \<^item> \<open>Handler offer start\<close>: \<open>handler.onNewTradeOffer(offer)\<close> started by
    \<open>handlerProcessOffer\<close> at time \<open>start\<close>;
  \<^item> \<open>Action offer response start\<close>: \<open>acceptOffer\<close> or \<open>declineOffer\<close> (with the retries of
    \<open>acceptOfferRetry\<close>) started at time \<open>start\<close>.
\<close>

datatype task = Fetch nat | Handler offer int | Action offer response int

text \<open>How a promise settles: the arguments its callback receives.\<close>

datatype outcome =
    FetchResult "error + offer option"
  | HandlerResult "error + response"
  | ActionResult "error + string"

text \<open>Calls the class makes on its collaborators, and the one log line modelled.\<close>

datatype effect =
    CallFetchOffer nat
  | CallOnNewTradeOffer offer
  | CallAccept offer
  | CallDecline offer
  | LogTook "int option"
  | CallOnTradeOfferChanged offer ETradeOfferState
  | InventoryRemoveItem string
  | InventoryFetch

record world =
  itemsInTrade :: "string list"
  receivedOffers :: "nat list"
  processingOffer :: bool
  pending :: "task list"
  confirmations :: "offer list"
  refreshing :: "(offer \<times> ETradeOfferState) list"
  trace :: "effect list"

definition init :: world where
  "init = \<lparr> itemsInTrade = [], receivedOffers = [], processingOffer = False,
            pending = [], confirmations = [], refreshing = [], trace = [] \<rparr>"

section \<open>The reservation tracker\<close>

definition setItemInTrade :: "string \<Rightarrow> world \<Rightarrow> world" where
  "setItemInTrade a w =
     (if indexOf (itemsInTrade w) a = None
      then w\<lparr>itemsInTrade := itemsInTrade w @ [a]\<rparr>
      else w)"

definition unsetItemInTrade :: "string \<Rightarrow> world \<Rightarrow> world" where
  "unsetItemInTrade a w =
     (case indexOf (itemsInTrade w) a of
        None \<Rightarrow> w
      | Some index \<Rightarrow> w\<lparr>itemsInTrade := splice1 index (itemsInTrade w)\<rparr>)"

text \<open>\<open>items.forEach(f)\<close> on the state.\<close>

fun forEach :: "'a list \<Rightarrow> ('a \<Rightarrow> world \<Rightarrow> world) \<Rightarrow> world \<Rightarrow> world" where
  "forEach [] f w = w"
| "forEach (x # xs) f w = forEach xs f (f x w)"

section \<open>The processing queue\<close>

definition dequeueOffer :: "nat \<Rightarrow> world \<Rightarrow> world" where
  "dequeueOffer offerId w =
     (case indexOf (receivedOffers w) offerId of
        None \<Rightarrow> w
      | Some index \<Rightarrow> w\<lparr>receivedOffers := splice1 index (receivedOffers w)\<rparr>)"

text \<open>
  \<open>handlerProcessOffer\<close> up to the call of the handler: it stamps \<open>handleTimestamp\<close> and
  leaves the handler's promise pending.  \<open>now\<close> is the clock, \<open>moment().valueOf()\<close>.
\<close>

definition handlerProcessOffer :: "offer \<Rightarrow> int \<Rightarrow> world \<Rightarrow> world" where
  "handlerProcessOffer offer now w =
     (let start = now;
          offer1 = offer_data_set ''handleTimestamp'' (Some (DNum start)) offer
      in w\<lparr>pending := pending w @ [Handler offer1 start],
           trace := trace w @ [CallOnNewTradeOffer offer1]\<rparr>)"

definition processNextOffer :: "world \<Rightarrow> world" where
  "processNextOffer w =
     (if processingOffer w \<or> length (receivedOffers w) = 0 then w
      else let offerId = hd (receivedOffers w)
           in w\<lparr>processingOffer := True,
                pending := pending w @ [Fetch offerId],
                trace := trace w @ [CallFetchOffer offerId]\<rparr>)"

definition finishProcessingOffer :: "nat \<Rightarrow> world \<Rightarrow> world" where
  "finishProcessingOffer offerId w =
     processNextOffer ((dequeueOffer offerId w)\<lparr>processingOffer := False\<rparr>)"

definition enqueueOffer :: "offer \<Rightarrow> int \<Rightarrow> world \<Rightarrow> world" where
  "enqueueOffer offer now w =
     (if indexOf (receivedOffers w) (oid offer) = None
      then let w1 = w\<lparr>receivedOffers := receivedOffers w @ [oid offer]\<rparr>
           in if length (receivedOffers w1) = 1
              then handlerProcessOffer offer now (w1\<lparr>processingOffer := True\<rparr>)
              else processNextOffer w1
      else w)"

text \<open>
  The callback \<open>processNextOffer\<close> gives to \<open>fetchOffer(offerId)\<close>: \<open>err\<close> is set when the
  promise rejected, and \<open>offer\<close> is \<open>undefined\<close> then and \<open>null\<close> when it resolved absent.
\<close>

definition processNextOffer_cb :: "nat \<Rightarrow> error + offer option \<Rightarrow> int \<Rightarrow> world \<Rightarrow> world" where
  "processNextOffer_cb offerId r now w =
     (let w1 = (case r of
                  Inl err \<Rightarrow>
                    if length (receivedOffers w) \<noteq> 1
                    then w\<lparr>receivedOffers := receivedOffers w @ [offerId]\<rparr>
                    else w
                | Inr x \<Rightarrow> w);
          offer = (case r of Inl err \<Rightarrow> None | Inr x \<Rightarrow> x)
      in case offer of
           None \<Rightarrow> finishProcessingOffer offerId w1
         | Some offer \<Rightarrow> handlerProcessOffer offer now w1)"

text \<open>
  \<open>acceptOffer\<close> and \<open>declineOffer\<close> up to the call of the Gateway: both stamp
  \<open>handledByUs\<close> and \<open>actionTimestamp\<close> and leave the action pending.
\<close>

definition acceptOffer :: "offer \<Rightarrow> response \<Rightarrow> int \<Rightarrow> world \<Rightarrow> world" where
  "acceptOffer offer response now w =
     (let offer1 = offer_data_set ''handledByUs'' (Some (DBool True)) offer;
          start = now;
          offer2 = offer_data_set ''actionTimestamp'' (Some (DNum start)) offer1
      in w\<lparr>pending := pending w @ [Action offer2 response start],
           trace := trace w @ [CallAccept offer2]\<rparr>)"

definition declineOffer :: "offer \<Rightarrow> response \<Rightarrow> int \<Rightarrow> world \<Rightarrow> world" where
  "declineOffer offer response now w =
     (let offer1 = offer_data_set ''handledByUs'' (Some (DBool True)) offer;
          start = now;
          offer2 = offer_data_set ''actionTimestamp'' (Some (DNum start)) offer1
      in w\<lparr>pending := pending w @ [Action offer2 response start],
           trace := trace w @ [CallDecline offer2]\<rparr>)"

text \<open>
  The callback \<open>handlerProcessOffer\<close> gives to the handler's promise.  On an error it
  throws; with an action that is neither \<open>accept\<close> nor \<open>decline\<close> the call of the
  undefined \<open>actionFunc\<close> throws.  In both cases nothing else of the class runs.
\<close>

definition handler_cb :: "offer \<Rightarrow> int \<Rightarrow> error + response \<Rightarrow> int \<Rightarrow> world \<Rightarrow> world" where
  "handler_cb offer start r now w =
     (case r of
        Inl err \<Rightarrow> w
      | Inr response \<Rightarrow>
          let offer1 = offer_data_set ''handleTime'' (Some (DNum (now - start))) offer;
              offer2 = offer_data_set ''action'' (Some (DResponse response)) offer1
          in if action response = ''accept'' then acceptOffer offer2 response now w
             else if action response = ''decline'' then declineOffer offer2 response now w
             else w)"

text \<open>
  The callback given to the action's promise, with what \<open>acceptOffer\<close> does when
  \<open>acceptOfferRetry\<close> settles: on \<open>pending\<close> it starts \<open>acceptConfirmation\<close> and does not
  wait for it.  A failed action is logged and nothing else happens.
\<close>

definition action_cb :: "offer \<Rightarrow> response \<Rightarrow> int \<Rightarrow> error + string \<Rightarrow> int \<Rightarrow> world \<Rightarrow> world" where
  "action_cb offer response start r now w =
     (let offer1 = offer_data_set ''actionTime'' (Some (DNum (now - start))) offer
      in case r of
           Inl err \<Rightarrow> w
         | Inr status \<Rightarrow>
             let w1 = (if action response = ''accept'' \<and> status = ''pending''
                       then w\<lparr>confirmations := confirmations w @
                                [offer_data_set ''actedOnConfirmationTimestamp'' (Some (DNum now))
                                   (offer_data_set ''actedOnConfirmation'' (Some (DBool True)) offer1)]\<rparr>
                       else w)
             in finishProcessingOffer (oid offer1) w1)"

section \<open>The state-change reactor: \<open>onOfferChanged\<close>\<close>

definition mapItem :: "EconItem \<Rightarrow> TradeOfferItem" where
  "mapItem item = TradeOfferItem (appid item) (contextid item) (assetid item) (amount item)"

text \<open>
  \<open>onOfferChanged\<close> up to the call of \<open>inventory.fetch()\<close>.  On the success path the
  offer and the old state wait in \<open>refreshing\<close> until the fetch settles.
\<close>

definition onOfferChanged :: "offer \<Rightarrow> ETradeOfferState \<Rightarrow> int \<Rightarrow> world \<Rightarrow> world" where
  "onOfferChanged offer oldState now w =
     (let (offer1, w1) =
            (if state offer = Active \<or> state offer = CreatedNeedsConfirmation
             then (if isOurOffer offer \<and> data_get (data offer) ''_ourItems'' = Some DNull
                   then offer_data_set ''_ourItems''
                          (Some (DItems (map mapItem (itemsToGive offer)))) offer
                   else offer,
                   forEach (itemsToGive offer) (\<lambda>item. setItemInTrade (item_id item)) w)
             else
               (let w2 = forEach (itemsToGive offer) (\<lambda>item. unsetItemInTrade (assetid item)) w;
                    offer2 = offer_data_set ''_ourItems'' None offer;
                    finishTimestamp = now;
                    offer3 = offer_data_set ''finishTimestamp'' (Some (DNum finishTimestamp)) offer2;
                    processTime = js_minus finishTimestamp (data_get (data offer3) ''handleTimeStamp'')
                in (offer3, w2\<lparr>trace := trace w2 @ [LogTook processTime]\<rparr>)))
      in if state offer \<noteq> Accepted \<and> state offer \<noteq> InEscrow
         then w1\<lparr>trace := trace w1 @ [CallOnTradeOfferChanged offer1 oldState]\<rparr>
         else w1\<lparr>trace := trace w1 @ map (\<lambda>item. InventoryRemoveItem (assetid item)) (itemsToGive offer)
                               @ [InventoryFetch],
                 refreshing := refreshing w1 @ [(offer1, oldState)]\<rparr>)"

text \<open>The callback given to \<open>inventory.fetch()\<close>; it runs whether the fetch failed or not.\<close>

definition inventoryFetch_cb :: "offer \<Rightarrow> ETradeOfferState \<Rightarrow> world \<Rightarrow> world" where
  "inventoryFetch_cb offer oldState w =
     w\<lparr>trace := trace w @ [CallOnTradeOfferChanged offer oldState]\<rparr>"

section \<open>Events\<close>

text \<open>
  What can happen to the class: \<open>enqueueOffer\<close> is reached (from \<open>onNewOffer\<close> or
  \<open>onOfferList\<close>), a pending promise of the pipeline settles, a detached confirmation
  settles, the manager reports a state change, or an inventory fetch settles.  A settle
  event names the promise by its place among the pending ones and is ignored when there
  is no such promise or the outcome is of another kind.
\<close>

datatype event =
    Enqueue offer int
  | Settle nat outcome int
  | ConfirmationSettled nat
  | OfferChanged offer ETradeOfferState int
  | InventoryFetched nat

definition settle :: "nat \<Rightarrow> outcome \<Rightarrow> int \<Rightarrow> world \<Rightarrow> world" where
  "settle i out now w =
     (if i < length (pending w)
      then let w1 = w\<lparr>pending := splice1 i (pending w)\<rparr>
           in case (pending w ! i, out) of
                (Fetch offerId, FetchResult r) \<Rightarrow> processNextOffer_cb offerId r now w1
              | (Handler offer start, HandlerResult r) \<Rightarrow> handler_cb offer start r now w1
              | (Action offer response start, ActionResult r) \<Rightarrow>
                  action_cb offer response start r now w1
              | _ \<Rightarrow> w
      else w)"

fun step :: "event \<Rightarrow> world \<Rightarrow> world" where
  "step (Enqueue offer now) w = enqueueOffer offer now w"
| "step (Settle i out now) w = settle i out now w"
| "step (ConfirmationSettled i) w =
     (if i < length (confirmations w)
      then w\<lparr>confirmations := splice1 i (confirmations w)\<rparr> else w)"
| "step (OfferChanged offer oldState now) w = onOfferChanged offer oldState now w"
| "step (InventoryFetched i) w =
     (if i < length (refreshing w)
      then case refreshing w ! i of
             (offer, oldState) \<Rightarrow>
               inventoryFetch_cb offer oldState (w\<lparr>refreshing := splice1 i (refreshing w)\<rparr>)
      else w)"

fun run :: "event list \<Rightarrow> world \<Rightarrow> world" where
  "run [] w = w"
| "run (e # es) w = run es (step e w)"

section \<open>Notions used by the properties\<close>

text \<open>
  A transient Gateway error: neither of the two not-found messages nor the
  session-expired message \<open>Not Logged In\<close>.
\<close>

definition transient :: "error \<Rightarrow> bool" where
  "transient err \<longleftrightarrow>
     message err \<noteq> ''NoMatch'' \<and> message err \<noteq> ''No matching offer found'' \<and>
     message err \<noteq> ''Not Logged In''"

text \<open>The active family of offer states.\<close>

definition active_family :: "ETradeOfferState \<Rightarrow> bool" where
  "active_family st \<longleftrightarrow> st = Active \<or> st = CreatedNeedsConfirmation"

text \<open>
  The invariant of the queue between two callbacks: at most one promise of the pipeline
  is pending, a pending promise means the processing flag is set, the flag is only set
  while the queue is non-empty, no id is queued twice, and an id being fetched is queued.
\<close>

fun fetch_queued :: "nat list \<Rightarrow> task \<Rightarrow> bool" where
  "fetch_queued q (Fetch x) = (x \<in> set q)"
| "fetch_queued q t = True"

definition queue_inv :: "world \<Rightarrow> bool" where
  "queue_inv w \<longleftrightarrow>
     length (pending w) \<le> 1 \<and>
     (pending w \<noteq> [] \<longrightarrow> processingOffer w) \<and>
     (processingOffer w \<longrightarrow> receivedOffers w \<noteq> []) \<and>
     distinct (receivedOffers w) \<and>
     list_all (fetch_queued (receivedOffers w)) (pending w)"

text \<open>
  The event \<open>ev\<close>, arriving in the state \<open>w\<close>, ends the pass of the id \<open>x\<close> by
  \<open>finishProcessingOffer\<close> without a requeue: the fetch of \<open>x\<close> resolved absent, or the
  fetch of \<open>x\<close> rejected while \<open>x\<close> was the only entry, or the action on the offer \<open>x\<close>
  succeeded.
\<close>

fun finishes :: "event \<Rightarrow> world \<Rightarrow> nat \<Rightarrow> bool" where
  "finishes (Settle i out now) w x =
     (i < length (pending w) \<and>
      (case (pending w ! i, out) of
         (Fetch y, FetchResult (Inr None)) \<Rightarrow> y = x
       | (Fetch y, FetchResult (Inl err)) \<Rightarrow> y = x \<and> receivedOffers w = [x]
       | (Action offer response start, ActionResult (Inr status)) \<Rightarrow> oid offer = x
       | _ \<Rightarrow> False))"
| "finishes ev w x = False"

text \<open>
  The asset ids an event takes out of the reservation list: those a state-change
  notification outside the active family lists as given away.  No other event releases.
\<close>

fun releases :: "event \<Rightarrow> string list" where
  "releases (OfferChanged offer oldState now) =
     (if active_family (state offer) then [] else map assetid (itemsToGive offer))"
| "releases ev = []"

subsection \<open>Concrete offers and scenarios\<close>

definition item_a1 :: EconItem where
  "item_a1 = \<lparr>appid = 440, contextid = ''2'', assetid = ''a1'', item_id = ''a1'', amount = 1\<rparr>"

definition offer1 :: offer where
  "offer1 = \<lparr>oid = 1, state = Active, itemsToGive = [item_a1], isOurOffer = False, data = []\<rparr>"

definition offer2 :: offer where
  "offer2 = \<lparr>oid = 2, state = Active, itemsToGive = [], isOurOffer = False, data = []\<rparr>"

definition offer3 :: offer where
  "offer3 = \<lparr>oid = 3, state = Active, itemsToGive = [], isOurOffer = False, data = []\<rparr>"

text \<open>
  Offers 1 and 2 arrive, the handler accepts offer 1 and the accept succeeds: offer 2 is
  now being fetched and is alone in the queue.
\<close>

definition lone_fetch :: "event list" where
  "lone_fetch =
     [Enqueue offer1 100, Enqueue offer2 110,
      Settle 0 (HandlerResult (Inr (Response ''accept''))) 120,
      Settle 0 (ActionResult (Inr ''accepted'')) 130]"

text \<open>The same with offer 3 arriving as well: offer 2 is being fetched, offer 3 waits.\<close>

definition two_queued :: "event list" where
  "two_queued =
     [Enqueue offer1 100, Enqueue offer2 110, Enqueue offer3 115,
      Settle 0 (HandlerResult (Inr (Response ''accept''))) 120,
      Settle 0 (ActionResult (Inr ''accepted'')) 130]"

text \<open>Offer 4 gives away the same item a1 as offer 1.\<close>

definition offer4 :: offer where
  "offer4 = \<lparr>oid = 4, state = Active, itemsToGive = [item_a1], isOurOffer = False, data = []\<rparr>"

text \<open>
  Offer 1 and then offer 4 are reported Active, then offer 4 is reported Declined while
  offer 1 is still Active.
\<close>

definition shared_item :: "event list" where
  "shared_item =
     [OfferChanged offer1 Invalid 100, OfferChanged offer4 Invalid 110,
      OfferChanged (offer4\<lparr>state := Declined\<rparr>) Active 120]"

text \<open>
  Events that release nothing of offer 1: offer 2 is enqueued, offer 1 is reported Active
  once more, and offer 3, which gives nothing away, is reported Declined.
\<close>

definition other_events :: "event list" where
  "other_events =
     [Enqueue offer2 110, OfferChanged offer1 CreatedNeedsConfirmation 200,
      OfferChanged (offer3\<lparr>state := Declined\<rparr>) Active 210]"

section \<open>Array helpers, as list functions\<close>

lemma indexOf_None: "indexOf xs x = None \<longleftrightarrow> x \<notin> set xs"
  by (induction xs) auto

lemma indexOf_splice1: "indexOf xs x = Some i \<Longrightarrow> splice1 i xs = remove1 x xs"
proof (induction xs arbitrary: i)
  case Nil
  then show ?case by simp
next
  case (Cons y ys)
  then show ?case by (auto simp: splice1_def split: if_splits)
qed

section \<open>Properties of the Fetcher\<close>

lemma fetchOffer_transient_step:
  assumes "transient err" "attempts < 5"
  shows "fetchOffer b i attempts (Inl err # gw) ws tr =
         fetchOffer b i (Suc attempts) gw ws (tr @ [GetOffer i, Delay (b (Suc attempts))])"
  using assms by (simp add: transient_def)

lemma fetchOffer_exhausted_step:
  "transient err \<Longrightarrow> 5 \<le> attempts \<Longrightarrow>
   fetchOffer b i attempts (Inl err # gw) ws tr = Some (Inl err, tr @ [GetOffer i])"
  by (simp add: transient_def)

text \<open>
  The Fetcher settles: with six answers of \<open>getOffer\<close> and five of \<open>getWebSession\<close>
  at hand (fewer when attempts were already made), the promise resolves or rejects.
\<close>

lemma fetchOffer_settles:
  assumes "6 - attempts \<le> length gw" "5 - attempts \<le> length ws" "gw \<noteq> []"
  shows "fetchOffer b i attempts gw ws tr \<noteq> None"
  using assms
proof (induction gw arbitrary: attempts ws tr)
  case Nil
  then show ?case by simp
next
  case (Cons r gw)
  show ?case
  proof (cases r)
    case (Inr offer)
    then show ?thesis by (simp add: Let_def)
  next
    case (Inl err)
    show ?thesis
    proof (cases "message err = ''NoMatch'' \<or> message err = ''No matching offer found'' \<or> 5 \<le> attempts")
      case True
      then show ?thesis using Inl by (auto simp: Let_def)
    next
      case False
      then have lt: "attempts < 5" by simp
      then have gw: "gw \<noteq> []" "6 - Suc attempts \<le> length gw" using Cons.prems by auto
      show ?thesis
      proof (cases "message err = ''Not Logged In''")
        case nl: False
        have "5 - Suc attempts \<le> length ws" using Cons.prems by simp
        then show ?thesis using Inl False nl lt Cons.IH[OF gw(2) _ gw(1)] by (simp add: Let_def)
      next
        case li: True
        then obtain werr ws' where ws: "ws = werr # ws'" using Cons.prems lt by (cases ws) auto
        then have "5 - Suc attempts \<le> length ws'" using Cons.prems by simp
        then show ?thesis using Inl False li lt ws Cons.IH[OF gw(2) _ gw(1)] by (simp add: Let_def)
      qed
    qed
  qed
qed

text \<open>
  The Fetcher only rejects when the retries are exhausted: a rejected promise has made
  its sixth call of \<open>getOffer\<close>.
\<close>

lemma fetchOffer_rejects_exhausted:
  assumes "fetchOffer b i attempts gw ws tr = Some (Inl err, tr')" "attempts \<le> 5"
  shows "getOffer_calls tr' = getOffer_calls tr + (6 - attempts)"
  using assms
proof (induction gw arbitrary: attempts ws tr)
  case Nil
  then show ?case by simp
next
  case (Cons r gw)
  show ?case
  proof (cases r)
    case (Inr offer)
    then show ?thesis using Cons.prems by (simp add: Let_def split: if_splits)
  next
    case (Inl e)
    show ?thesis
    proof (cases "attempts = 5")
      case True
      then show ?thesis using Inl Cons.prems
        by (auto simp: Let_def getOffer_calls_def split: if_splits)
    next
      case False
      then have lt: "attempts < 5" "Suc attempts \<le> 5" using Cons.prems by auto
      show ?thesis
      proof (cases "message e = ''Not Logged In''")
        case nl: False
        then have "fetchOffer b i (Suc attempts) gw ws (tr @ [GetOffer i, Delay (b (Suc attempts))]) = Some (Inl err, tr')"
          using Inl Cons.prems lt by (simp add: Let_def split: if_splits)
        from Cons.IH[OF this lt(2)] show ?thesis using lt by (simp add: getOffer_calls_def)
      next
        case li: True
        then obtain werr ws' where ws: "ws = werr # ws'"
          using Inl Cons.prems lt by (cases ws) (auto simp: Let_def)
        then have "fetchOffer b i (Suc attempts) gw ws'
            (tr @ [GetOffer i, GetWebSession True, Delay (if werr = None then b (Suc attempts) else 0)]) = Some (Inl err, tr')"
          using Inl Cons.prems lt li by (simp add: Let_def split: if_splits)
        from Cons.IH[OF this lt(2)] show ?thesis using lt by (simp add: getOffer_calls_def)
      qed
    qed
  qed
qed

text \<open>
  A run of transient errors that stays within the five retries is consumed one call per
  error, and the attempt counter grows by the length of the run.
\<close>

lemma fetchOffer_transient_run:
  assumes "\<forall>e\<in>set es. transient e" "attempts + length es \<le> 5"
  shows "\<exists>tr'. fetchOffer b i attempts (map Inl es @ rest) ws tr =
               fetchOffer b i (attempts + length es) rest ws tr'
             \<and> getOffer_calls tr' = getOffer_calls tr + length es"
  using assms
proof (induction es arbitrary: attempts tr)
  case Nil
  then show ?case by auto
next
  case (Cons e es)
  have e: "transient e" and lt: "attempts < 5" using Cons.prems by auto
  have "\<exists>tr'. fetchOffer b i (Suc attempts) (map Inl es @ rest) ws
                 (tr @ [GetOffer i, Delay (b (Suc attempts))]) =
               fetchOffer b i (Suc attempts + length es) rest ws tr'
             \<and> getOffer_calls tr' =
               getOffer_calls (tr @ [GetOffer i, Delay (b (Suc attempts))]) + length es"
    using Cons.prems by (intro Cons.IH) auto
  then show ?case
    using fetchOffer_transient_step[OF e lt, of b i "map Inl es @ rest" ws tr]
    by (auto simp: getOffer_calls_def)
qed

text \<open>
  Claim C4.  The Gateway fails \<open>N\<close> times with transient errors \<open>es\<close> (so \<open>N = length es\<close>)
  and then answers with an Active offer.  When \<open>N \<le> 5\<close>, \<open>fetchOffer\<close> resolves that
  offer after exactly \<open>N + 1\<close> calls of \<open>getOffer\<close>; when \<open>N > 5\<close> it rejects after six
  calls with the error of the sixth call, the last one it received.
\<close>

theorem fetchOffer_retry_bound:
  assumes tr: "\<forall>e\<in>set es. transient e" and act: "state offer = Active"
  shows "map_option (\<lambda>(r, tr). (r, getOffer_calls tr))
           (fetchOffer b i 0 (map Inl es @ Inr offer # rest) ws []) =
         Some (if length es \<le> 5 then (Inr (Some offer), length es + 1)
               else (Inl (es ! 5), 6))"
proof (cases "length es \<le> 5")
  case True
  obtain tr' where 1: "fetchOffer b i 0 (map Inl es @ Inr offer # rest) ws [] =
      fetchOffer b i (0 + length es) (Inr offer # rest) ws tr'"
    and 2: "getOffer_calls tr' = getOffer_calls [] + length es"
    using fetchOffer_transient_run[OF tr, of 0 b i "Inr offer # rest" ws "[]"] True by auto
  show ?thesis using True 1 2 act by (simp add: getOffer_calls_def)
next
  case False
  define es1 where "es1 = take 5 es"
  define es2 where "es2 = drop 6 es"
  have es: "es = es1 @ (es ! 5) # es2"
    using False id_take_nth_drop[of 5 es] unfolding es1_def es2_def by simp
  have l1: "length es1 = 5" using False by (simp add: es1_def)
  have t1: "\<forall>e\<in>set es1. transient e" using tr by (auto simp: es1_def dest: in_set_takeD)
  have t5: "transient (es ! 5)" using tr False by simp
  have split: "map Inl es @ Inr offer # rest =
      map Inl es1 @ (Inl (es ! 5) # map Inl es2 @ Inr offer # rest)"
    by (subst es) simp
  obtain tr' where 1:
    "fetchOffer b i 0 (map Inl es1 @ (Inl (es ! 5) # map Inl es2 @ Inr offer # rest)) ws [] =
      fetchOffer b i (0 + length es1) (Inl (es ! 5) # map Inl es2 @ Inr offer # rest) ws tr'"
    and 2: "getOffer_calls tr' = getOffer_calls [] + length es1"
    using fetchOffer_transient_run[OF t1, of 0 b i _ ws "[]"] l1 by (metis add_0 order_refl)
  show ?thesis
    using False 1 2 l1 fetchOffer_exhausted_step[OF t5, of 5 b i _ ws tr']
    unfolding split by (simp add: getOffer_calls_def)
qed

text \<open>
  Two and seven timeouts before an Active offer 7: resolved after three calls, and
  rejected after six.
\<close>

theorem fetchOffer_retry_bound_witness:
  "transient (Error ''ETIMEDOUT'') \<and>
   state \<lparr>oid = 7, state = Active, itemsToGive = [], isOurOffer = False, data = []\<rparr> = Active \<and>
   map_option (\<lambda>(r, tr). (r, getOffer_calls tr))
     (fetchOffer (\<lambda>n. 1000 * 2 ^ n) 7 0
        [Inl (Error ''ETIMEDOUT''), Inl (Error ''ETIMEDOUT''),
         Inr \<lparr>oid = 7, state = Active, itemsToGive = [], isOurOffer = False, data = []\<rparr>] [] []) =
   Some (Inr (Some \<lparr>oid = 7, state = Active, itemsToGive = [], isOurOffer = False, data = []\<rparr>), 3) \<and>
   map_option (\<lambda>(r, tr). (r, getOffer_calls tr))
     (fetchOffer (\<lambda>n. 1000 * 2 ^ n) 7 0
        [Inl (Error ''E1''), Inl (Error ''E2''), Inl (Error ''E3''), Inl (Error ''E4''),
         Inl (Error ''E5''), Inl (Error ''E6''), Inl (Error ''E7''),
         Inr \<lparr>oid = 7, state = Active, itemsToGive = [], isOurOffer = False, data = []\<rparr>] [] []) =
   Some (Inl (Error ''E6''), 6)"
  using
    fetchOffer_retry_bound[of "[Error ''ETIMEDOUT'', Error ''ETIMEDOUT'']"
      "\<lparr>oid = 7, state = Active, itemsToGive = [], isOurOffer = False, data = []\<rparr>"
      "\<lambda>n. 1000 * 2 ^ n" 7 "[]" "[]"]
    fetchOffer_retry_bound[of "[Error ''E1'', Error ''E2'', Error ''E3'', Error ''E4'',
        Error ''E5'', Error ''E6'', Error ''E7'']"
      "\<lparr>oid = 7, state = Active, itemsToGive = [], isOurOffer = False, data = []\<rparr>"
      "\<lambda>n. 1000 * 2 ^ n" 7 "[]" "[]"]
  by (simp add: transient_def)

text \<open>
  A session-expired error with attempts left: the Fetcher asks for a forced session
  refresh, waits, and calls \<open>getOffer\<close> again with the attempt counter one higher.  The
  wait is the backoff when the refresh succeeded and 0 when it failed.
\<close>

lemma fetchOffer_session_step:
  assumes "message err = ''Not Logged In''" "attempts < 5"
  shows "fetchOffer b i attempts (Inl err # gw) (werr # ws) tr =
         fetchOffer b i (Suc attempts) gw ws
           (tr @ [GetOffer i, GetWebSession True,
                  Delay (if werr = None then b (Suc attempts) else 0)])"
  using assms by simp

text \<open>
  Claim C3 says that after a session-expired error the Fetcher waits 0 when the forced
  refresh succeeded and the backoff when it failed.  The code tests \<open>err !== null\<close> on
  the refresh's error and so does the opposite, against its own comment (``if there is
  no error when waiting for web session, then attempt to fetch the offer right away''):
  after a refresh that succeeded it waits \<open>exponentialBackoff\<close> of the incremented attempt
  counter, and after a refresh that failed it waits 0.
\<close>

theorem fetchOffer_session_refresh_wait:
  assumes "message err = ''Not Logged In''" "attempts < 5"
  shows "fetchOffer b i attempts (Inl err # gw) (None # ws) tr =
           fetchOffer b i (Suc attempts) gw ws
             (tr @ [GetOffer i, GetWebSession True, Delay (b (Suc attempts))]) \<and>
         fetchOffer b i attempts (Inl err # gw) (Some werr # ws) tr =
           fetchOffer b i (Suc attempts) gw ws
             (tr @ [GetOffer i, GetWebSession True, Delay 0])"
  using fetchOffer_session_step[OF assms, of b i gw None ws tr]
    fetchOffer_session_step[OF assms, of b i gw "Some werr" ws tr]
  by simp

text \<open>
  Claim C3 at a concrete input: the first \<open>getOffer\<close> for offer 2 fails with
  \<open>Not Logged In\<close>, the second returns the Active offer.  With a refresh that succeeds
  the wait is 2000 ms (for a backoff of \<open>1000 * 2 ^ n\<close>), with one that fails it is 0.
\<close>

theorem fetchOffer_session_refresh_wait_witness:
  "message (Error ''Not Logged In'') = ''Not Logged In'' \<and> (0::nat) < 5 \<and>
   fetchOffer (\<lambda>n. 1000 * 2 ^ n) 2 0 [Inl (Error ''Not Logged In''), Inr offer2] [None] [] =
     Some (Inr (Some offer2), [GetOffer 2, GetWebSession True, Delay 2000, GetOffer 2]) \<and>
   fetchOffer (\<lambda>n. 1000 * 2 ^ n) 2 0 [Inl (Error ''Not Logged In''), Inr offer2]
       [Some (Error ''ETIMEDOUT'')] [] =
     Some (Inr (Some offer2), [GetOffer 2, GetWebSession True, Delay 0, GetOffer 2])"
  using fetchOffer_session_refresh_wait[of "Error ''Not Logged In''" 0 "\<lambda>n. 1000 * 2 ^ n" 2
      "[Inr offer2]" "[]" "[]" "Error ''ETIMEDOUT''"]
  by (simp add: offer2_def)

section \<open>Properties of the processing queue\<close>

lemma list_all_fetch_queued:
  "list_all (fetch_queued q) ts \<longleftrightarrow> (\<forall>x. Fetch x \<in> set ts \<longrightarrow> x \<in> set q)"
proof (induction ts)
  case Nil
  then show ?case by simp
next
  case (Cons t ts)
  then show ?case by (cases t) auto
qed

lemma queue_inv_iff:
  "queue_inv w \<longleftrightarrow>
     length (pending w) \<le> 1 \<and>
     (pending w \<noteq> [] \<longrightarrow> processingOffer w) \<and>
     (processingOffer w \<longrightarrow> receivedOffers w \<noteq> []) \<and>
     distinct (receivedOffers w) \<and>
     (\<forall>x. Fetch x \<in> set (pending w) \<longrightarrow> x \<in> set (receivedOffers w))"
  by (simp add: queue_inv_def list_all_fetch_queued)


lemma dequeueOffer_remove1:
  "dequeueOffer x w = w\<lparr>receivedOffers := remove1 x (receivedOffers w)\<rparr>"
proof (cases "indexOf (receivedOffers w) x")
  case None
  then have "x \<notin> set (receivedOffers w)" by (simp add: indexOf_None)
  then have "remove1 x (receivedOffers w) = receivedOffers w" by (simp add: remove1_idem)
  then show ?thesis using None by (simp add: dequeueOffer_def)
next
  case (Some i)
  then show ?thesis by (simp add: dequeueOffer_def indexOf_splice1)
qed

lemma processNextOffer_inv_idle:
  assumes "pending w = []" "distinct (receivedOffers w)" "\<not> processingOffer w"
  shows "queue_inv (processNextOffer w)"
  using assms by (cases "receivedOffers w") (auto simp: queue_inv_iff processNextOffer_def)

lemma processNextOffer_inv:
  assumes "queue_inv w"
  shows "queue_inv (processNextOffer w)"
proof (cases "processingOffer w")
  case True
  then show ?thesis using assms by (simp add: processNextOffer_def)
next
  case False
  then have "pending w = []" using assms by (auto simp: queue_inv_iff)
  then show ?thesis using assms False by (intro processNextOffer_inv_idle) (auto simp: queue_inv_iff)
qed

lemma finishProcessingOffer_inv:
  assumes "pending w = []" "distinct (receivedOffers w)"
  shows "queue_inv (finishProcessingOffer x w)"
  unfolding finishProcessingOffer_def
  using assms by (intro processNextOffer_inv_idle) (auto simp: dequeueOffer_remove1)

lemma handlerProcessOffer_inv:
  assumes "pending w = []" "distinct (receivedOffers w)" "processingOffer w" "receivedOffers w \<noteq> []"
  shows "queue_inv (handlerProcessOffer offer now w)"
  using assms by (simp add: queue_inv_iff handlerProcessOffer_def Let_def)

lemma enqueueOffer_inv:
  assumes "queue_inv w"
  shows "queue_inv (enqueueOffer offer now w)"
proof (cases "oid offer \<in> set (receivedOffers w)")
  case True
  then show ?thesis using assms by (simp add: enqueueOffer_def indexOf_None)
next
  case False
  show ?thesis
  proof (cases "receivedOffers w = []")
    case True
    then have "pending w = []" using assms by (auto simp: queue_inv_iff)
    then show ?thesis using True False
      by (simp add: enqueueOffer_def indexOf_None Let_def handlerProcessOffer_inv)
  next
    case nonempty: False
    then have len: "length (receivedOffers w @ [oid offer]) \<noteq> 1"
      by (cases "receivedOffers w") auto
    have "queue_inv (w\<lparr>receivedOffers := receivedOffers w @ [oid offer]\<rparr>)"
      using assms False by (auto simp: queue_inv_iff)
    then show ?thesis using False len
      by (simp add: enqueueOffer_def indexOf_None Let_def processNextOffer_inv)
  qed
qed

lemma processNextOffer_cb_inv:
  assumes "pending w = []" "distinct (receivedOffers w)" "processingOffer w"
    "x \<in> set (receivedOffers w)"
  shows "queue_inv (processNextOffer_cb x r now w)"
proof (cases r)
  case (Inl err)
  show ?thesis
  proof (cases "length (receivedOffers w) \<noteq> 1")
    case True
    have "queue_inv (processNextOffer ((dequeueOffer x (w\<lparr>receivedOffers := receivedOffers w @ [x]\<rparr>))\<lparr>processingOffer := False\<rparr>))"
      using assms by (intro processNextOffer_inv_idle) (auto simp: dequeueOffer_remove1 remove1_append)
    then show ?thesis using Inl True
      by (simp add: processNextOffer_cb_def finishProcessingOffer_def)
  next
    case False
    then show ?thesis using Inl assms
      by (simp add: processNextOffer_cb_def finishProcessingOffer_inv)
  qed
next
  case (Inr o')
  have ne: "receivedOffers w \<noteq> []" using assms by auto
  show ?thesis using Inr assms ne
    by (cases o') (simp_all add: processNextOffer_cb_def finishProcessingOffer_inv handlerProcessOffer_inv)
qed

lemma handler_cb_inv:
  assumes "pending w = []" "distinct (receivedOffers w)" "processingOffer w" "receivedOffers w \<noteq> []"
  shows "queue_inv (handler_cb offer start r now w)"
  using assms
  by (cases r) (auto simp: handler_cb_def queue_inv_iff acceptOffer_def declineOffer_def Let_def)

lemma action_cb_inv:
  assumes "pending w = []" "distinct (receivedOffers w)" "processingOffer w" "receivedOffers w \<noteq> []"
  shows "queue_inv (action_cb offer response start r now w)"
proof (cases r)
  case (Inl err)
  then show ?thesis using assms by (simp add: action_cb_def queue_inv_iff Let_def)
next
  case (Inr status)
  then show ?thesis using assms
    by (simp add: action_cb_def Let_def finishProcessingOffer_inv)
qed

lemma settle_inv:
  assumes "queue_inv w"
  shows "queue_inv (settle i out now w)"
proof (cases "i < length (pending w)")
  case False
  then show ?thesis using assms by (simp add: settle_def)
next
  case True
  then obtain t where p: "pending w = [t]" and i: "i = 0"
    using assms by (cases "pending w") (auto simp: queue_inv_iff)
  let ?w1 = "w\<lparr>pending := splice1 i (pending w)\<rparr>"
  have w1: "pending ?w1 = []" "distinct (receivedOffers ?w1)" "processingOffer ?w1"
    "receivedOffers ?w1 \<noteq> []"
    using assms p i by (auto simp: queue_inv_iff splice1_def)
  show ?thesis
  proof (cases t)
    case (Fetch x)
    then have "x \<in> set (receivedOffers ?w1)" using assms p by (auto simp: queue_inv_iff)
    then show ?thesis using Fetch p i w1 assms
      by (cases out) (simp_all add: settle_def processNextOffer_cb_inv)
  next
    case (Handler offer start)
    then show ?thesis using p i w1 assms
      by (cases out) (simp_all add: settle_def handler_cb_inv)
  next
    case (Action offer response start)
    then show ?thesis using p i w1 assms
      by (cases out) (simp_all add: settle_def action_cb_inv)
  qed
qed

lemma forEach_queue_fields:
  assumes "\<And>x w. pending (f x w) = pending w \<and> receivedOffers (f x w) = receivedOffers w \<and>
      processingOffer (f x w) = processingOffer w \<and> trace (f x w) = trace w \<and>
      refreshing (f x w) = refreshing w \<and> confirmations (f x w) = confirmations w"
  shows "pending (forEach xs f w) = pending w \<and> receivedOffers (forEach xs f w) = receivedOffers w \<and>
      processingOffer (forEach xs f w) = processingOffer w \<and> trace (forEach xs f w) = trace w \<and>
      refreshing (forEach xs f w) = refreshing w \<and> confirmations (forEach xs f w) = confirmations w"
  by (induction xs arbitrary: w) (simp_all add: assms)

lemma setItemInTrade_fields:
  "pending (setItemInTrade a w) = pending w \<and> receivedOffers (setItemInTrade a w) = receivedOffers w \<and>
      processingOffer (setItemInTrade a w) = processingOffer w \<and> trace (setItemInTrade a w) = trace w \<and>
      refreshing (setItemInTrade a w) = refreshing w \<and> confirmations (setItemInTrade a w) = confirmations w"
  by (simp add: setItemInTrade_def)

lemma unsetItemInTrade_fields:
  "pending (unsetItemInTrade a w) = pending w \<and> receivedOffers (unsetItemInTrade a w) = receivedOffers w \<and>
      processingOffer (unsetItemInTrade a w) = processingOffer w \<and> trace (unsetItemInTrade a w) = trace w \<and>
      refreshing (unsetItemInTrade a w) = refreshing w \<and> confirmations (unsetItemInTrade a w) = confirmations w"
  by (simp add: unsetItemInTrade_def split: option.splits)

lemmas forEach_set_fields = forEach_queue_fields[of "\<lambda>item. setItemInTrade (item_id item)", OF setItemInTrade_fields]
lemmas forEach_unset_fields = forEach_queue_fields[of "\<lambda>item. unsetItemInTrade (assetid item)", OF unsetItemInTrade_fields]

lemma onOfferChanged_queue_fields:
  "pending (onOfferChanged offer old now w) = pending w \<and>
   receivedOffers (onOfferChanged offer old now w) = receivedOffers w \<and>
   processingOffer (onOfferChanged offer old now w) = processingOffer w"
  by (simp add: onOfferChanged_def Let_def forEach_set_fields forEach_unset_fields)

lemma step_inv:
  assumes "queue_inv w"
  shows "queue_inv (step ev w)"
proof (cases ev)
  case (Enqueue offer now)
  then show ?thesis using assms by (simp add: enqueueOffer_inv)
next
  case (Settle i out now)
  then show ?thesis using assms by (simp add: settle_inv)
next
  case (ConfirmationSettled i)
  then show ?thesis using assms by (simp add: queue_inv_iff)
next
  case (OfferChanged offer old now)
  then show ?thesis using assms by (simp add: queue_inv_iff onOfferChanged_queue_fields)
next
  case (InventoryFetched i)
  then show ?thesis using assms
    by (auto simp: queue_inv_iff inventoryFetch_cb_def split: prod.splits)
qed

lemma run_inv: "queue_inv w \<Longrightarrow> queue_inv (run evs w)"
  by (induction evs arbitrary: w) (simp_all add: step_inv)

lemma init_inv: "queue_inv init"
  by (simp add: queue_inv_iff init_def)


lemmas world_defs = enqueueOffer_def handlerProcessOffer_def processNextOffer_def
  finishProcessingOffer_def dequeueOffer_def processNextOffer_cb_def handler_cb_def
  action_cb_def acceptOffer_def declineOffer_def settle_def splice1_def init_def Let_def

lemma offer_data_set_fields [simp]:
  "oid (offer_data_set k v offer) = oid offer"
  "state (offer_data_set k v offer) = state offer"
  "itemsToGive (offer_data_set k v offer) = itemsToGive offer"
  "isOurOffer (offer_data_set k v offer) = isOurOffer offer"
  by (simp_all add: offer_data_set_def)

text \<open>
  Claim C1 says that an id whose fetch was rejected while it was the only entry stays at
  the front of the queue and is retried.  In the scenario \<open>lone_fetch\<close> offer 2 is alone
  in the queue and being fetched; when that fetch is rejected the callback does not
  requeue it (the guard \<open>receivedOffers.length !== 1\<close>) and \<open>finishProcessingOffer\<close>
  removes it: the queue is empty, nothing is pending, and a later
  \<open>processNextOffer\<close> does nothing.
\<close>

theorem lone_rejected_fetch_is_dropped:
  "receivedOffers (run lone_fetch init) = [2] \<and>
   pending (run lone_fetch init) = [Fetch 2] \<and>
   2 \<notin> set (receivedOffers
     (step (Settle 0 (FetchResult (Inl (Error ''ETIMEDOUT''))) 140) (run lone_fetch init))) \<and>
   pending (step (Settle 0 (FetchResult (Inl (Error ''ETIMEDOUT''))) 140) (run lone_fetch init)) = [] \<and>
   processNextOffer (step (Settle 0 (FetchResult (Inl (Error ''ETIMEDOUT''))) 140) (run lone_fetch init)) =
     step (Settle 0 (FetchResult (Inl (Error ''ETIMEDOUT''))) 140) (run lone_fetch init)"
  by (simp add: lone_fetch_def offer1_def offer2_def world_defs offer_data_set_def)

text \<open>
  Claim C2.  After every sequence of events, starting from the freshly constructed
  class, at most one promise of the pipeline (a fetch, a handler decision or an action)
  is pending, and whenever one is pending the processing flag is set: no two offers are
  fetched, decided or acted on at the same time.  (The confirmation started by
  \<open>acceptOffer\<close> is detached and is not one of these.)
\<close>

theorem at_most_one_in_flight:
  "length (pending (run evs init)) \<le> 1 \<and>
   (pending (run evs init) \<noteq> [] \<longrightarrow> processingOffer (run evs init))"
  using run_inv[OF init_inv, of evs] by (simp add: queue_inv_iff)

text \<open>Claim C2 after two offers arrived back to back: only the first is in flight.\<close>

theorem at_most_one_in_flight_witness:
  "pending (run [Enqueue offer1 100, Enqueue offer2 110] init) \<noteq> [] \<and>
   length (pending (run [Enqueue offer1 100, Enqueue offer2 110] init)) \<le> 1 \<and>
   processingOffer (run [Enqueue offer1 100, Enqueue offer2 110] init)"
  using at_most_one_in_flight[of "[Enqueue offer1 100, Enqueue offer2 110]"]
  by (simp add: offer1_def offer2_def world_defs)

text \<open>
  Claim C5.  After every sequence of events no offer id is in the queue twice (between
  two callbacks), and \<open>enqueueOffer\<close> of an id that is already queued changes nothing:
  no second copy, no processing started.
\<close>

theorem queue_ids_distinct:
  "distinct (receivedOffers (run evs init)) \<and>
   (oid offer \<in> set (receivedOffers w) \<longrightarrow> enqueueOffer offer now w = w)"
  using run_inv[OF init_inv, of evs] by (simp add: queue_inv_iff enqueueOffer_def indexOf_None)

text \<open>Claim C5 when offer 2, already queued and being fetched, is enqueued again.\<close>

theorem queue_ids_distinct_witness:
  "oid offer2 \<in> set (receivedOffers (run two_queued init)) \<and>
   enqueueOffer offer2 140 (run two_queued init) = run two_queued init \<and>
   distinct (receivedOffers (run (two_queued @ [Enqueue offer2 140]) init))"
  using queue_ids_distinct[of "two_queued @ [Enqueue offer2 140]" offer2 "run two_queued init" 140]
  by (simp add: two_queued_def offer1_def offer2_def offer3_def world_defs offer_data_set_def)

lemma receivedOffers_processNextOffer [simp]:
  "receivedOffers (processNextOffer w) = receivedOffers w"
  by (simp add: processNextOffer_def Let_def)

lemma receivedOffers_finish:
  "receivedOffers (finishProcessingOffer x w) = remove1 x (receivedOffers w)"
  by (simp add: finishProcessingOffer_def dequeueOffer_remove1)

lemma receivedOffers_enqueue:
  "set (receivedOffers w) \<subseteq> set (receivedOffers (enqueueOffer offer now w))"
  by (auto simp: enqueueOffer_def handlerProcessOffer_def Let_def)

lemma removal_finishes:
  assumes inv: "queue_inv w" and x: "x \<in> set (receivedOffers w)"
    and gone: "x \<notin> set (receivedOffers (step ev w))"
  shows "finishes ev w x"
proof (cases ev)
  case (Enqueue offer now)
  then show ?thesis using x gone receivedOffers_enqueue[of w offer now] by auto
next
  case (Settle i out now)
  show ?thesis
  proof (cases "i < length (pending w)")
    case False
    then show ?thesis using Settle x gone by (simp add: settle_def)
  next
    case True
    then obtain t where p: "pending w = [t]" and i: "i = 0"
      using inv by (cases "pending w") (auto simp: queue_inv_iff)
    show ?thesis
    proof (cases t)
      case (Fetch y)
      have y: "y \<in> set (receivedOffers w)" using inv p Fetch by (auto simp: queue_inv_iff)
      show ?thesis
      proof (cases out)
        case (FetchResult r)
        show ?thesis
        proof (cases r)
          case (Inl err)
          show ?thesis
          proof (cases "length (receivedOffers w) \<noteq> 1")
            case True
            have "receivedOffers (step ev w) = remove1 y (receivedOffers w @ [y])"
              using Settle p i Fetch FetchResult Inl True
              by (simp add: settle_def processNextOffer_cb_def receivedOffers_finish)
            moreover have "distinct (receivedOffers w)" using inv by (simp add: queue_inv_iff)
            ultimately have "set (receivedOffers (step ev w)) = set (receivedOffers w)"
              using y by (auto simp: remove1_append)
            then show ?thesis using x gone by simp
          next
            case False
            then obtain z where z: "receivedOffers w = [z]"
              by (cases "receivedOffers w") auto
            then show ?thesis using Settle p i Fetch FetchResult Inl x y by simp
          qed
        next
          case (Inr o')
          show ?thesis
          proof (cases o')
            case None
            have "receivedOffers (step ev w) = remove1 y (receivedOffers w)"
              using Settle p i Fetch FetchResult Inr None
              by (simp add: settle_def processNextOffer_cb_def receivedOffers_finish)
            then have "x = y" using x gone by (metis in_set_remove1)
            then show ?thesis using Settle p i Fetch FetchResult Inr None by simp
          next
            case (Some a)
            then show ?thesis using Settle p i Fetch FetchResult Inr x gone
              by (simp add: settle_def processNextOffer_cb_def handlerProcessOffer_def Let_def)
          qed
        qed
      qed (use Settle p i Fetch x gone in \<open>simp_all add: settle_def\<close>)
    next
      case (Handler offer start)
      then show ?thesis using Settle p i x gone
        by (cases out)
           (auto simp: settle_def handler_cb_def acceptOffer_def declineOffer_def Let_def
                 split: sum.splits if_splits)
    next
      case (Action offer response start)
      show ?thesis
      proof (cases out)
        case (ActionResult r)
        show ?thesis
        proof (cases r)
          case (Inl err)
          then show ?thesis using Settle p i Action ActionResult x gone
            by (simp add: settle_def action_cb_def Let_def)
        next
          case (Inr status)
          have "receivedOffers (step ev w) = remove1 (oid offer) (receivedOffers w)"
            using Settle p i Action ActionResult Inr
            by (simp add: settle_def action_cb_def Let_def receivedOffers_finish offer_data_set_def)
          then have "x = oid offer" using x gone by (metis in_set_remove1)
          then show ?thesis using Settle p i Action ActionResult Inr by simp
        qed
      qed (use Settle p i Action x gone in \<open>simp_all add: settle_def\<close>)
    qed
  qed
next
  case (ConfirmationSettled i)
  then show ?thesis using x gone by (simp split: if_splits)
next
  case (OfferChanged offer old now)
  then show ?thesis using x gone by (simp add: onOfferChanged_queue_fields)
next
  case (InventoryFetched i)
  then show ?thesis using x gone by (auto simp: inventoryFetch_cb_def split: prod.splits if_splits)
qed

text \<open>
  Claim C1, amended.  When the fetch of the front id \<open>x\<close> is rejected and \<open>x\<close> is the only
  entry, \<open>x\<close> is removed: the queue is empty, the flag is cleared and no fetch is
  started.  When there are more entries, \<open>x\<close> moves to the tail and the next id is
  fetched.  And in every reachable state an id leaves the queue only by an event that
  \<open>finishes\<close> it: an absent fetch result for it, a rejected fetch while it is alone, or a
  successful action on it.
\<close>

theorem rejected_fetch_requeue_or_drop:
  "(pending w = [Fetch x] \<and> receivedOffers w = [x] \<longrightarrow>
      step (Settle 0 (FetchResult (Inl err)) now) w =
        w\<lparr>pending := [], processingOffer := False, receivedOffers := []\<rparr>) \<and>
   (pending w = [Fetch x] \<and> receivedOffers w = x # y # ys \<longrightarrow>
      receivedOffers (step (Settle 0 (FetchResult (Inl err)) now) w) = y # ys @ [x] \<and>
      pending (step (Settle 0 (FetchResult (Inl err)) now) w) = [Fetch y] \<and>
      processingOffer (step (Settle 0 (FetchResult (Inl err)) now) w)) \<and>
   (z \<in> set (receivedOffers (run evs init)) \<and>
    z \<notin> set (receivedOffers (step ev (run evs init))) \<longrightarrow>
      finishes ev (run evs init) z)"
proof (intro conjI impI)
  assume "pending w = [Fetch x] \<and> receivedOffers w = [x]"
  then show "step (Settle 0 (FetchResult (Inl err)) now) w =
        w\<lparr>pending := [], processingOffer := False, receivedOffers := []\<rparr>"
    by (simp add: world_defs)
next
  assume a: "pending w = [Fetch x] \<and> receivedOffers w = x # y # ys"
  then show "receivedOffers (step (Settle 0 (FetchResult (Inl err)) now) w) = y # ys @ [x]"
    by (simp add: world_defs)
  from a show "pending (step (Settle 0 (FetchResult (Inl err)) now) w) = [Fetch y]"
    by (simp add: world_defs)
  from a show "processingOffer (step (Settle 0 (FetchResult (Inl err)) now) w)"
    by (simp add: world_defs)
next
  assume "z \<in> set (receivedOffers (run evs init)) \<and>
    z \<notin> set (receivedOffers (step ev (run evs init)))"
  then show "finishes ev (run evs init) z"
    using removal_finishes[OF run_inv[OF init_inv]] by blast
qed

text \<open>
  Claim C1, amended, in the two scenarios: offer 2 alone in the queue is dropped when its
  fetch is rejected, and that event finishes it; with offer 3 waiting behind, offer 2
  moves to the tail and offer 3 is fetched.
\<close>

theorem rejected_fetch_requeue_or_drop_witness:
  "pending (run lone_fetch init) = [Fetch 2] \<and> receivedOffers (run lone_fetch init) = [2] \<and>
   receivedOffers (step (Settle 0 (FetchResult (Inl (Error ''ETIMEDOUT''))) 140) (run lone_fetch init)) = [] \<and>
   finishes (Settle 0 (FetchResult (Inl (Error ''ETIMEDOUT''))) 140) (run lone_fetch init) 2 \<and>
   pending (run two_queued init) = [Fetch 2] \<and> receivedOffers (run two_queued init) = [2, 3] \<and>
   receivedOffers (step (Settle 0 (FetchResult (Inl (Error ''ETIMEDOUT''))) 140) (run two_queued init)) = [3, 2] \<and>
   pending (step (Settle 0 (FetchResult (Inl (Error ''ETIMEDOUT''))) 140) (run two_queued init)) = [Fetch 3]"
proof -
  have l: "pending (run lone_fetch init) = [Fetch 2] \<and> receivedOffers (run lone_fetch init) = [2]"
    by (simp add: lone_fetch_def offer1_def offer2_def world_defs offer_data_set_def)
  have t: "pending (run two_queued init) = [Fetch 2] \<and> receivedOffers (run two_queued init) = [2, 3]"
    by (simp add: two_queued_def offer1_def offer2_def offer3_def world_defs offer_data_set_def)
  show ?thesis
    using l t
      rejected_fetch_requeue_or_drop[of "run lone_fetch init" 2 "Error ''ETIMEDOUT''" 140 3 "[]" 2
        lone_fetch "Settle 0 (FetchResult (Inl (Error ''ETIMEDOUT''))) 140"]
      rejected_fetch_requeue_or_drop[of "run two_queued init" 2 "Error ''ETIMEDOUT''" 140 3 "[]" 2
        lone_fetch "Settle 0 (FetchResult (Inl (Error ''ETIMEDOUT''))) 140"]
    by simp
qed



subsection \<open>Where the Fetcher is called\<close>


lemma finish_fetch_front:
  "CallFetchOffer x \<in> set (drop (length (trace w)) (trace (finishProcessingOffer y w))) \<Longrightarrow>
   receivedOffers (finishProcessingOffer y w) \<noteq> [] \<and> hd (receivedOffers (finishProcessingOffer y w)) = x"
  by (auto simp: finishProcessingOffer_def processNextOffer_def dequeueOffer_remove1 Let_def split: if_splits)

lemma enqueue_fetch_front:
  "CallFetchOffer x \<in> set (drop (length (trace w)) (trace (enqueueOffer offer now w))) \<Longrightarrow>
   receivedOffers (enqueueOffer offer now w) \<noteq> [] \<and> hd (receivedOffers (enqueueOffer offer now w)) = x"
  by (auto simp: enqueueOffer_def processNextOffer_def handlerProcessOffer_def Let_def split: if_splits)

lemma processNextOffer_cb_fetch_front:
  "CallFetchOffer x \<in> set (drop (length (trace w)) (trace (processNextOffer_cb y r now w))) \<Longrightarrow>
   receivedOffers (processNextOffer_cb y r now w) \<noteq> [] \<and> hd (receivedOffers (processNextOffer_cb y r now w)) = x"
proof (cases r)
  case (Inl err)
  assume a: "CallFetchOffer x \<in> set (drop (length (trace w)) (trace (processNextOffer_cb y r now w)))"
  show ?thesis
  proof (cases "length (receivedOffers w) \<noteq> 1")
    case True
    then show ?thesis
      using a Inl finish_fetch_front[of x "w\<lparr>receivedOffers := receivedOffers w @ [y]\<rparr>" y]
      by (simp add: processNextOffer_cb_def)
  next
    case False
    then show ?thesis using a Inl finish_fetch_front[of x w y]
      by (simp add: processNextOffer_cb_def)
  qed
next
  case (Inr o')
  assume a: "CallFetchOffer x \<in> set (drop (length (trace w)) (trace (processNextOffer_cb y r now w)))"
  show ?thesis
  proof (cases o')
    case None
    then show ?thesis using a Inr finish_fetch_front[of x w y]
      by (simp add: processNextOffer_cb_def)
  next
    case (Some offer)
    then show ?thesis using a Inr
      by (simp add: processNextOffer_cb_def handlerProcessOffer_def Let_def)
  qed
qed

lemma handler_cb_fetch_front:
  "CallFetchOffer x \<notin> set (drop (length (trace w)) (trace (handler_cb offer start r now w)))"
  by (cases r) (simp_all add: handler_cb_def acceptOffer_def declineOffer_def Let_def)

lemma action_cb_Inr:
  "action_cb offer resp start (Inr status) now w =
     finishProcessingOffer (oid offer)
       (w\<lparr>confirmations := confirmations w @
           (if action resp = ''accept'' \<and> status = ''pending''
            then [offer_data_set ''actedOnConfirmationTimestamp'' (Some (DNum now))
                   (offer_data_set ''actedOnConfirmation'' (Some (DBool True))
                     (offer_data_set ''actionTime'' (Some (DNum (now - start))) offer))]
            else [])\<rparr>)"
  by (simp add: action_cb_def Let_def)

lemma action_cb_fetch_front:
  assumes "CallFetchOffer x \<in> set (drop (length (trace w)) (trace (action_cb offer resp start r now w)))"
  shows "receivedOffers (action_cb offer resp start r now w) \<noteq> [] \<and>
         hd (receivedOffers (action_cb offer resp start r now w)) = x"
proof (cases r)
  case (Inl err)
  then show ?thesis using assms by (simp add: action_cb_def Let_def)
next
  case (Inr status)
  define w1 where "w1 = w\<lparr>confirmations := confirmations w @
           (if action resp = ''accept'' \<and> status = ''pending''
            then [offer_data_set ''actedOnConfirmationTimestamp'' (Some (DNum now))
                   (offer_data_set ''actedOnConfirmation'' (Some (DBool True))
                     (offer_data_set ''actionTime'' (Some (DNum (now - start))) offer))]
            else [])\<rparr>"
  have tr: "trace w1 = trace w" by (simp add: w1_def)
  have eq: "action_cb offer resp start r now w = finishProcessingOffer (oid offer) w1"
    unfolding Inr w1_def by (rule action_cb_Inr)
  show ?thesis
    using assms finish_fetch_front[of x w1 "oid offer"] unfolding eq tr by simp
qed

lemma settle_fetch_front:
  assumes "CallFetchOffer x \<in> set (drop (length (trace w)) (trace (settle i out now w)))"
  shows "receivedOffers (settle i out now w) \<noteq> [] \<and> hd (receivedOffers (settle i out now w)) = x"
proof (cases "i < length (pending w)")
  case False
  then show ?thesis using assms by (simp add: settle_def)
next
  case True
  let ?w1 = "w\<lparr>pending := splice1 i (pending w)\<rparr>"
  have tr: "trace ?w1 = trace w" by simp
  show ?thesis
  proof (cases "pending w ! i")
    case (Fetch y)
    show ?thesis
    proof (cases out)
      case (FetchResult r)
      then show ?thesis
        using assms True Fetch processNextOffer_cb_fetch_front[of x ?w1 y r now]
        by (simp add: settle_def)
    qed (use assms True Fetch in \<open>simp_all add: settle_def\<close>)
  next
    case (Handler offer start)
    show ?thesis
    proof (cases out)
      case (HandlerResult r)
      then show ?thesis
        using assms True Handler handler_cb_fetch_front[of x ?w1 offer start r now]
        by (simp add: settle_def)
    qed (use assms True Handler in \<open>simp_all add: settle_def\<close>)
  next
    case (Action offer resp start)
    show ?thesis
    proof (cases out)
      case (ActionResult r)
      then show ?thesis
        using assms True Action action_cb_fetch_front[of x ?w1 offer resp start r now]
        by (simp add: settle_def)
    qed (use assms True Action in \<open>simp_all add: settle_def\<close>)
  qed
qed

lemma onOfferChanged_fetch_front:
  "CallFetchOffer x \<notin> set (drop (length (trace w)) (trace (onOfferChanged offer old now w)))"
  by (auto simp: onOfferChanged_def Let_def forEach_set_fields forEach_unset_fields)

lemma step_fetch_front:
  assumes "CallFetchOffer x \<in> set (drop (length (trace w)) (trace (step ev w)))"
  shows "receivedOffers (step ev w) \<noteq> [] \<and> hd (receivedOffers (step ev w)) = x"
proof (cases ev)
  case (Enqueue offer now)
  then show ?thesis using assms enqueue_fetch_front by simp
next
  case (Settle i out now)
  then show ?thesis using assms settle_fetch_front by simp
next
  case (ConfirmationSettled i)
  then show ?thesis using assms by (simp split: if_splits)
next
  case (OfferChanged offer old now)
  then show ?thesis using assms onOfferChanged_fetch_front by simp
next
  case (InventoryFetched i)
  then show ?thesis using assms
    by (auto simp: inventoryFetch_cb_def split: if_splits prod.splits)
qed


text \<open>
  Claim C6.  The queue is \<open>[O1, O2]\<close> and \<open>O1\<close> is being fetched.  When that fetch is
  rejected, the callback pushes \<open>O1\<close> to the tail and \<open>finishProcessingOffer\<close> removes
  its first occurrence: the queue is \<open>[O2, O1]\<close> and \<open>O2\<close> is fetched next.  When the
  pass of \<open>O2\<close> finishes, because its fetch resolved absent or because it was fetched,
  decided and acted on with success, the queue is \<open>[O1]\<close> and \<open>O1\<close> is fetched again.
\<close>

theorem rejected_front_goes_to_tail:
  assumes "receivedOffers w = [O1, O2]" "pending w = [Fetch O1]" "processingOffer w"
    and w': "w' = step (Settle 0 (FetchResult (Inl err)) now) w"
  shows "w' = finishProcessingOffer O1 (w\<lparr>pending := [], receivedOffers := [O1, O2, O1]\<rparr>) \<and>
         receivedOffers w' = [O2, O1] \<and> pending w' = [Fetch O2] \<and> processingOffer w' \<and>
         trace w' = trace w @ [CallFetchOffer O2] \<and>
         receivedOffers (step (Settle 0 (FetchResult (Inr None)) t1) w') = [O1] \<and>
         pending (step (Settle 0 (FetchResult (Inr None)) t1) w') = [Fetch O1] \<and>
         (oid o2 = O2 \<and> (action resp = ''accept'' \<or> action resp = ''decline'') \<longrightarrow>
            receivedOffers (run [Settle 0 (FetchResult (Inr (Some o2))) t1,
                                 Settle 0 (HandlerResult (Inr resp)) t2,
                                 Settle 0 (ActionResult (Inr status)) t3] w') = [O1] \<and>
            pending (run [Settle 0 (FetchResult (Inr (Some o2))) t1,
                          Settle 0 (HandlerResult (Inr resp)) t2,
                          Settle 0 (ActionResult (Inr status)) t3] w') = [Fetch O1])"
proof -
  have 1: "w' = finishProcessingOffer O1 (w\<lparr>pending := [], receivedOffers := [O1, O2, O1]\<rparr>)"
    using assms(1-3) unfolding w'
    by (simp add: settle_def processNextOffer_cb_def splice1_def)
  have 2: "receivedOffers w' = [O2, O1] \<and> pending w' = [Fetch O2] \<and> processingOffer w' \<and>
         trace w' = trace w @ [CallFetchOffer O2]"
    using assms(1-3) unfolding 1 by (simp add: world_defs)
  have 3: "receivedOffers (step (Settle 0 (FetchResult (Inr None)) t1) w') = [O1] \<and>
         pending (step (Settle 0 (FetchResult (Inr None)) t1) w') = [Fetch O1]"
    using 2 by (simp add: world_defs)
  have 4: "oid o2 = O2 \<and> (action resp = ''accept'' \<or> action resp = ''decline'') \<longrightarrow>
            receivedOffers (run [Settle 0 (FetchResult (Inr (Some o2))) t1,
                                 Settle 0 (HandlerResult (Inr resp)) t2,
                                 Settle 0 (ActionResult (Inr status)) t3] w') = [O1] \<and>
            pending (run [Settle 0 (FetchResult (Inr (Some o2))) t1,
                          Settle 0 (HandlerResult (Inr resp)) t2,
                          Settle 0 (ActionResult (Inr status)) t3] w') = [Fetch O1]"
    using 2 by (simp add: world_defs)
  show ?thesis using 1 2 3 4 by blast
qed

text \<open>
  Claim C6 in the scenario \<open>two_queued\<close>: the fetch of offer 2 is rejected with offer 3
  behind it; offer 3 is fetched, accepted, and then offer 2 is fetched again.
\<close>

theorem rejected_front_goes_to_tail_witness:
  "receivedOffers (run two_queued init) = [2, 3] \<and>
   pending (run two_queued init) = [Fetch 2] \<and>
   processingOffer (run two_queued init) \<and>
   receivedOffers (step (Settle 0 (FetchResult (Inl (Error ''ETIMEDOUT''))) 140) (run two_queued init)) = [3, 2] \<and>
   pending (step (Settle 0 (FetchResult (Inl (Error ''ETIMEDOUT''))) 140) (run two_queued init)) = [Fetch 3] \<and>
   oid offer3 = 3 \<and> action (Response ''accept'') = ''accept'' \<and>
   receivedOffers (run [Settle 0 (FetchResult (Inr (Some offer3))) 150,
                        Settle 0 (HandlerResult (Inr (Response ''accept''))) 160,
                        Settle 0 (ActionResult (Inr ''accepted'')) 170]
      (step (Settle 0 (FetchResult (Inl (Error ''ETIMEDOUT''))) 140) (run two_queued init))) = [2] \<and>
   pending (run [Settle 0 (FetchResult (Inr (Some offer3))) 150,
                 Settle 0 (HandlerResult (Inr (Response ''accept''))) 160,
                 Settle 0 (ActionResult (Inr ''accepted'')) 170]
      (step (Settle 0 (FetchResult (Inl (Error ''ETIMEDOUT''))) 140) (run two_queued init))) = [Fetch 2]"
proof -
  have t: "receivedOffers (run two_queued init) = [2, 3]" "pending (run two_queued init) = [Fetch 2]"
    "processingOffer (run two_queued init)"
    by (simp_all add: two_queued_def offer1_def offer2_def offer3_def world_defs offer_data_set_def)
  have o: "oid offer3 = 3" by (simp add: offer3_def)
  have a: "action (Response ''accept'') = ''accept''" by simp
  show ?thesis
    using t o a rejected_front_goes_to_tail[OF t refl, where ?o2.0 = offer3
        and resp = "Response ''accept''" and err = "Error ''ETIMEDOUT''" and now = 140
        and ?t1.0 = 150 and ?t2.0 = 160 and status = "''accepted''" and ?t3.0 = 170]
    by blast
qed

text \<open>
  Claim C10.  When \<open>enqueueOffer\<close> finds the queue empty, the offer of the notification
  goes straight to \<open>handlerProcessOffer\<close>: the flag is set, the handler's promise is the
  only new pending one and no fetch is started, whatever the state of the offer.  If the
  handler then accepts or declines and the action succeeds, the whole pass ends without a
  call of \<open>fetchOffer\<close>.  And whenever an event does call \<open>fetchOffer\<close>, it is for the id at
  the front of the non-empty queue.
\<close>

theorem first_offer_skips_fetcher:
  "(receivedOffers w = [] \<longrightarrow>
      enqueueOffer offer now w =
        w\<lparr>receivedOffers := [oid offer], processingOffer := True,
          pending := pending w @
            [Handler (offer_data_set ''handleTimestamp'' (Some (DNum now)) offer) now],
          trace := trace w @
            [CallOnNewTradeOffer (offer_data_set ''handleTimestamp'' (Some (DNum now)) offer)]\<rparr>) \<and>
   (action resp = ''accept'' \<longrightarrow>
      trace (run [Enqueue offer now, Settle 0 (HandlerResult (Inr resp)) t1,
                  Settle 0 (ActionResult (Inr status)) t2] init) =
        [CallOnNewTradeOffer (offer_data_set ''handleTimestamp'' (Some (DNum now)) offer),
         CallAccept (offer_data_set ''actionTimestamp'' (Some (DNum t1))
           (offer_data_set ''handledByUs'' (Some (DBool True))
           (offer_data_set ''action'' (Some (DResponse resp))
           (offer_data_set ''handleTime'' (Some (DNum (t1 - now)))
           (offer_data_set ''handleTimestamp'' (Some (DNum now)) offer)))))] \<and>
      receivedOffers (run [Enqueue offer now, Settle 0 (HandlerResult (Inr resp)) t1,
                  Settle 0 (ActionResult (Inr status)) t2] init) = []) \<and>
   (action resp = ''decline'' \<longrightarrow>
      trace (run [Enqueue offer now, Settle 0 (HandlerResult (Inr resp)) t1,
                  Settle 0 (ActionResult (Inr status)) t2] init) =
        [CallOnNewTradeOffer (offer_data_set ''handleTimestamp'' (Some (DNum now)) offer),
         CallDecline (offer_data_set ''actionTimestamp'' (Some (DNum t1))
           (offer_data_set ''handledByUs'' (Some (DBool True))
           (offer_data_set ''action'' (Some (DResponse resp))
           (offer_data_set ''handleTime'' (Some (DNum (t1 - now)))
           (offer_data_set ''handleTimestamp'' (Some (DNum now)) offer)))))] \<and>
      receivedOffers (run [Enqueue offer now, Settle 0 (HandlerResult (Inr resp)) t1,
                  Settle 0 (ActionResult (Inr status)) t2] init) = []) \<and>
   (CallFetchOffer x \<in> set (drop (length (trace v)) (trace (step ev v))) \<longrightarrow>
      receivedOffers (step ev v) \<noteq> [] \<and> hd (receivedOffers (step ev v)) = x)"
proof (intro conjI impI)
  assume "receivedOffers w = []"
  then show "enqueueOffer offer now w =
        w\<lparr>receivedOffers := [oid offer], processingOffer := True,
          pending := pending w @
            [Handler (offer_data_set ''handleTimestamp'' (Some (DNum now)) offer) now],
          trace := trace w @
            [CallOnNewTradeOffer (offer_data_set ''handleTimestamp'' (Some (DNum now)) offer)]\<rparr>"
    by (simp add: enqueueOffer_def handlerProcessOffer_def Let_def)
next
  assume a: "action resp = ''accept''"
  then show "trace (run [Enqueue offer now, Settle 0 (HandlerResult (Inr resp)) t1,
                  Settle 0 (ActionResult (Inr status)) t2] init) =
        [CallOnNewTradeOffer (offer_data_set ''handleTimestamp'' (Some (DNum now)) offer),
         CallAccept (offer_data_set ''actionTimestamp'' (Some (DNum t1))
           (offer_data_set ''handledByUs'' (Some (DBool True))
           (offer_data_set ''action'' (Some (DResponse resp))
           (offer_data_set ''handleTime'' (Some (DNum (t1 - now)))
           (offer_data_set ''handleTimestamp'' (Some (DNum now)) offer)))))]"
    by (simp add: world_defs)
  from a show "receivedOffers (run [Enqueue offer now, Settle 0 (HandlerResult (Inr resp)) t1,
                  Settle 0 (ActionResult (Inr status)) t2] init) = []"
    by (simp add: world_defs)
next
  assume a: "action resp = ''decline''"
  then show "trace (run [Enqueue offer now, Settle 0 (HandlerResult (Inr resp)) t1,
                  Settle 0 (ActionResult (Inr status)) t2] init) =
        [CallOnNewTradeOffer (offer_data_set ''handleTimestamp'' (Some (DNum now)) offer),
         CallDecline (offer_data_set ''actionTimestamp'' (Some (DNum t1))
           (offer_data_set ''handledByUs'' (Some (DBool True))
           (offer_data_set ''action'' (Some (DResponse resp))
           (offer_data_set ''handleTime'' (Some (DNum (t1 - now)))
           (offer_data_set ''handleTimestamp'' (Some (DNum now)) offer)))))]"
    by (simp add: world_defs)
  from a show "receivedOffers (run [Enqueue offer now, Settle 0 (HandlerResult (Inr resp)) t1,
                  Settle 0 (ActionResult (Inr status)) t2] init) = []"
    by (simp add: world_defs)
next
  assume "CallFetchOffer x \<in> set (drop (length (trace v)) (trace (step ev v)))"
  then show "receivedOffers (step ev v) \<noteq> []" "hd (receivedOffers (step ev v)) = x"
    using step_fetch_front[of x v ev] by simp_all
qed

text \<open>
  Claim C10 for offer 1 arriving Declined (not Active) at an empty queue: it is handed to
  the handler and accepted without a fetch; and in the scenario \<open>lone_fetch\<close> the one
  fetch that is started is for offer 2, the front of the queue.
\<close>

theorem first_offer_skips_fetcher_witness:
  "receivedOffers init = [] \<and>
   pending (enqueueOffer (offer1\<lparr>state := Declined\<rparr>) 100 init) =
     [Handler (offer_data_set ''handleTimestamp'' (Some (DNum 100)) (offer1\<lparr>state := Declined\<rparr>)) 100] \<and>
   trace (enqueueOffer (offer1\<lparr>state := Declined\<rparr>) 100 init) =
     [CallOnNewTradeOffer (offer_data_set ''handleTimestamp'' (Some (DNum 100)) (offer1\<lparr>state := Declined\<rparr>))] \<and>
   action (Response ''accept'') = ''accept'' \<and>
   receivedOffers (run [Enqueue (offer1\<lparr>state := Declined\<rparr>) 100,
                        Settle 0 (HandlerResult (Inr (Response ''accept''))) 120,
                        Settle 0 (ActionResult (Inr ''accepted'')) 130] init) = [] \<and>
   CallFetchOffer 2 \<in> set (drop (length (trace (run (butlast lone_fetch) init)))
                             (trace (step (last lone_fetch) (run (butlast lone_fetch) init)))) \<and>
   hd (receivedOffers (step (last lone_fetch) (run (butlast lone_fetch) init))) = 2"
proof -
  have f: "CallFetchOffer 2 \<in> set (drop (length (trace (run (butlast lone_fetch) init)))
                             (trace (step (last lone_fetch) (run (butlast lone_fetch) init))))"
    by (simp add: lone_fetch_def offer1_def offer2_def world_defs offer_data_set_def)
  note T = first_offer_skips_fetcher[of init "offer1\<lparr>state := Declined\<rparr>" 100
        "Response ''accept''" 120 "''accepted''" 130 2 "run (butlast lone_fetch) init"
        "last lone_fetch"]
  have a: "receivedOffers init = []" by (simp add: init_def)
  have e: "enqueueOffer (offer1\<lparr>state := Declined\<rparr>) 100 init =
        init\<lparr>receivedOffers := [oid (offer1\<lparr>state := Declined\<rparr>)], processingOffer := True,
          pending := pending init @
            [Handler (offer_data_set ''handleTimestamp'' (Some (DNum 100))
               (offer1\<lparr>state := Declined\<rparr>)) 100],
          trace := trace init @
            [CallOnNewTradeOffer (offer_data_set ''handleTimestamp'' (Some (DNum 100))
               (offer1\<lparr>state := Declined\<rparr>))]\<rparr>"
    using T a by blast
  have p: "pending (enqueueOffer (offer1\<lparr>state := Declined\<rparr>) 100 init) =
     [Handler (offer_data_set ''handleTimestamp'' (Some (DNum 100)) (offer1\<lparr>state := Declined\<rparr>)) 100]"
    unfolding e by (simp add: init_def)
  have tr: "trace (enqueueOffer (offer1\<lparr>state := Declined\<rparr>) 100 init) =
     [CallOnNewTradeOffer (offer_data_set ''handleTimestamp'' (Some (DNum 100)) (offer1\<lparr>state := Declined\<rparr>))]"
    unfolding e by (simp add: init_def)
  have r: "receivedOffers (run [Enqueue (offer1\<lparr>state := Declined\<rparr>) 100,
                        Settle 0 (HandlerResult (Inr (Response ''accept''))) 120,
                        Settle 0 (ActionResult (Inr ''accepted'')) 130] init) = []"
    using T by simp
  have h: "hd (receivedOffers (step (last lone_fetch) (run (butlast lone_fetch) init))) = 2"
    using T f by blast
  show ?thesis using a p tr r f h by simp
qed

section \<open>Properties of the reservation tracker and the reactor\<close>

lemma setItemInTrade_items:
  "itemsInTrade (setItemInTrade a w) =
     (if a \<in> set (itemsInTrade w) then itemsInTrade w else itemsInTrade w @ [a])"
  by (simp add: setItemInTrade_def indexOf_None)

lemma unsetItemInTrade_items:
  "itemsInTrade (unsetItemInTrade a w) = remove1 a (itemsInTrade w)"
proof (cases "indexOf (itemsInTrade w) a")
  case None
  then have "a \<notin> set (itemsInTrade w)" by (simp add: indexOf_None)
  then show ?thesis using None by (simp add: unsetItemInTrade_def remove1_idem)
next
  case (Some i)
  then show ?thesis by (simp add: unsetItemInTrade_def indexOf_splice1)
qed

lemma data_get_set: "data_get (data_set k v d) k' = (if k' = k then v else data_get d k')"
  by (induction d) (auto simp: data_get_def data_set_def split: option.splits)

lemma distinct_count_list: "distinct xs \<Longrightarrow> count_list xs a = (if a \<in> set xs then 1 else 0)"
  by (induction xs) auto

lemma forEach_set_items:
  assumes "distinct (itemsInTrade w)"
  shows "distinct (itemsInTrade (forEach xs (\<lambda>item. setItemInTrade (g item)) w)) \<and>
         set (itemsInTrade (forEach xs (\<lambda>item. setItemInTrade (g item)) w)) =
           set (itemsInTrade w) \<union> g ` set xs"
  using assms
proof (induction xs arbitrary: w)
  case Nil
  then show ?case by simp
next
  case (Cons x xs)
  have d: "distinct (itemsInTrade (setItemInTrade (g x) w))"
    using Cons.prems by (simp add: setItemInTrade_items)
  show ?case using Cons.IH[OF d] by (auto simp: setItemInTrade_items)
qed

lemma forEach_unset_items:
  assumes "distinct (itemsInTrade w)"
  shows "distinct (itemsInTrade (forEach xs (\<lambda>item. unsetItemInTrade (g item)) w)) \<and>
         set (itemsInTrade (forEach xs (\<lambda>item. unsetItemInTrade (g item)) w)) =
           set (itemsInTrade w) - g ` set xs"
  using assms
proof (induction xs arbitrary: w)
  case Nil
  then show ?case by simp
next
  case (Cons x xs)
  have d: "distinct (itemsInTrade (unsetItemInTrade (g x) w))"
    using Cons.prems by (simp add: unsetItemInTrade_items)
  show ?case using Cons.IH[OF d] Cons.prems by (auto simp: unsetItemInTrade_items)
qed

lemma onOfferChanged_items:
  "itemsInTrade (onOfferChanged offer old now w) =
     (if active_family (state offer)
      then itemsInTrade (forEach (itemsToGive offer) (\<lambda>item. setItemInTrade (item_id item)) w)
      else itemsInTrade (forEach (itemsToGive offer) (\<lambda>item. unsetItemInTrade (assetid item)) w))"
  by (simp add: onOfferChanged_def active_family_def Let_def)

lemma onOfferChanged_active_items:
  assumes "distinct (itemsInTrade w)" "active_family (state offer)"
    "\<forall>item\<in>set (itemsToGive offer). item_id item = assetid item"
  shows "distinct (itemsInTrade (onOfferChanged offer old now w)) \<and>
         set (itemsInTrade (onOfferChanged offer old now w)) =
           set (itemsInTrade w) \<union> assetid ` set (itemsToGive offer)"
  using forEach_set_items[OF assms(1), of "itemsToGive offer" item_id] assms(2,3)
  by (auto simp: onOfferChanged_items)

lemma onOfferChanged_leaving_items:
  assumes "distinct (itemsInTrade w)" "\<not> active_family (state offer)"
  shows "distinct (itemsInTrade (onOfferChanged offer old now w)) \<and>
         set (itemsInTrade (onOfferChanged offer old now w)) =
           set (itemsInTrade w) - assetid ` set (itemsToGive offer)"
  using forEach_unset_items[OF assms(1), of "itemsToGive offer" assetid] assms(2)
  by (simp add: onOfferChanged_items)

text \<open>
  Both tracker operations keep the reservation list free of duplicates; the list starts
  empty and is changed by nothing else.
\<close>

lemma distinct_setItemInTrade:
  "distinct (itemsInTrade w) \<Longrightarrow> distinct (itemsInTrade (setItemInTrade a w))"
  by (simp add: setItemInTrade_items)

lemma distinct_unsetItemInTrade:
  "distinct (itemsInTrade w) \<Longrightarrow> distinct (itemsInTrade (unsetItemInTrade a w))"
  by (simp add: unsetItemInTrade_items)

text \<open>
  Only \<open>onOfferChanged\<close> touches the reservation list among the events; the queue and
  its callbacks leave it alone.
\<close>

lemma itemsInTrade_processNextOffer [simp]:
  "itemsInTrade (processNextOffer w) = itemsInTrade w"
  by (simp add: processNextOffer_def Let_def)

lemma itemsInTrade_finish [simp]:
  "itemsInTrade (finishProcessingOffer x w) = itemsInTrade w"
  by (simp add: finishProcessingOffer_def dequeueOffer_def split: option.splits)

lemma itemsInTrade_handlerProcessOffer [simp]:
  "itemsInTrade (handlerProcessOffer offer now w) = itemsInTrade w"
  by (simp add: handlerProcessOffer_def Let_def)

lemma itemsInTrade_enqueue [simp]:
  "itemsInTrade (enqueueOffer offer now w) = itemsInTrade w"
  by (simp add: enqueueOffer_def Let_def)

lemma itemsInTrade_processNextOffer_cb [simp]:
  "itemsInTrade (processNextOffer_cb x r now w) = itemsInTrade w"
  by (simp add: processNextOffer_cb_def Let_def split: sum.splits option.splits)

lemma itemsInTrade_handler_cb [simp]:
  "itemsInTrade (handler_cb offer start r now w) = itemsInTrade w"
  by (simp add: handler_cb_def acceptOffer_def declineOffer_def Let_def split: sum.splits)

lemma itemsInTrade_action_cb [simp]:
  "itemsInTrade (action_cb offer resp start r now w) = itemsInTrade w"
  by (simp add: action_cb_def Let_def split: sum.splits)

lemma itemsInTrade_settle [simp]:
  "itemsInTrade (settle i out now w) = itemsInTrade w"
  by (simp add: settle_def Let_def split: task.splits outcome.splits)

text \<open>
  An event keeps the list free of duplicates and takes out at most what it \<open>releases\<close>.
\<close>

lemma step_items:
  assumes "distinct (itemsInTrade w)"
  shows "distinct (itemsInTrade (step ev w)) \<and>
         set (itemsInTrade w) - set (releases ev) \<subseteq> set (itemsInTrade (step ev w))"
proof (cases ev)
  case (OfferChanged offer old now)
  show ?thesis
  proof (cases "active_family (state offer)")
    case True
    then show ?thesis
      using OfferChanged forEach_set_items[OF assms, of "itemsToGive offer" item_id]
      by (auto simp: onOfferChanged_items)
  next
    case False
    then show ?thesis
      using OfferChanged onOfferChanged_leaving_items[OF assms False, of old now]
      by auto
  qed
next
  case (InventoryFetched i)
  then show ?thesis using assms
    by (auto simp: inventoryFetch_cb_def split: prod.splits)
qed (use assms in auto)

lemma run_items:
  assumes "distinct (itemsInTrade w)" "\<forall>ev\<in>set evs. set (releases ev) \<inter> A = {}"
  shows "distinct (itemsInTrade (run evs w)) \<and>
         set (itemsInTrade w) \<inter> A \<subseteq> set (itemsInTrade (run evs w))"
  using assms
proof (induction evs arbitrary: w)
  case Nil
  then show ?case by simp
next
  case (Cons ev evs)
  have s: "distinct (itemsInTrade (step ev w))"
    "set (itemsInTrade w) - set (releases ev) \<subseteq> set (itemsInTrade (step ev w))"
    using step_items[OF Cons.prems(1), of ev] by auto
  have r: "\<forall>ev\<in>set evs. set (releases ev) \<inter> A = {}" using Cons.prems(2) by simp
  have d: "set (releases ev) \<inter> A = {}" using Cons.prems(2) by simp
  show ?case using Cons.IH[OF s(1) r] s(2) d by auto
qed

text \<open>
  Claim C7 says that an item reserved when its offer entered the active family is
  released exactly once, when that offer leaves it.  The reservation list has no
  multiplicity and does not know which offer reserved an item.  In the scenario
  \<open>shared_item\<close> offers 1 and 4 both give item a1: a1 is reserved when offer 1 is
  reported Active, released when offer 4 is reported Declined although offer 1 is still
  Active, and the notification that then reports offer 1 Accepted releases nothing.
  And when the leaving notification of offer 1 lists no items any more, a1 stays
  reserved.
\<close>

theorem shared_item_released_early:
  "count_list (itemsInTrade (run [OfferChanged offer1 Invalid 100] init)) ''a1'' = 1 \<and>
   state offer1 = Active \<and>
   count_list (itemsInTrade (run shared_item init)) ''a1'' = 0 \<and>
   itemsInTrade (step (OfferChanged (offer1\<lparr>state := Accepted\<rparr>) Active 130) (run shared_item init)) =
     itemsInTrade (run shared_item init) \<and>
   count_list (itemsInTrade
     (run [OfferChanged offer1 Invalid 100,
           OfferChanged (offer1\<lparr>state := Accepted, itemsToGive := []\<rparr>) Active 130] init)) ''a1'' = 1"
  by (simp add: shared_item_def offer1_def offer4_def item_a1_def init_def onOfferChanged_def
      setItemInTrade_def unsetItemInTrade_def splice1_def Let_def)

text \<open>
  Claim C7, amended.  The reservation list has no duplicates and the given items of the
  offer have the same \<open>id\<close> and \<open>assetid\<close> (the reserving branch reads \<open>item.id\<close>, the
  releasing one \<open>item.assetid\<close>).  A notification reports the offer in the active
  family; then come any events \<open>mid\<close>, among them any number of further active-family
  notifications of this offer, none of which releases one of its items; then a
  notification with the same given items reports it outside.  Before that last
  notification each item is in the list exactly once, after it not at all, so exactly
  that one entry was removed, and the last notification changes no other reservation.
\<close>

theorem reservation_round_trip:
  assumes "distinct (itemsInTrade w)"
    and "\<forall>item\<in>set items. item_id item = assetid item"
    and "itemsToGive entering = items" and "active_family (state entering)"
    and "\<forall>ev\<in>set mid. set (releases ev) \<inter> assetid ` set items = {}"
    and "itemsToGive leaving = items" and "\<not> active_family (state leaving)"
    and w1: "w1 = run mid (step (OfferChanged entering old0 now0) w)"
    and w2: "w2 = step (OfferChanged leaving old now) w1"
  shows "(\<forall>item\<in>set items. count_list (itemsInTrade w1) (assetid item) = 1 \<and>
                            count_list (itemsInTrade w2) (assetid item) = 0) \<and>
         (\<forall>a. a \<notin> assetid ` set items \<longrightarrow>
               count_list (itemsInTrade w2) a = count_list (itemsInTrade w1) a)"
proof -
  let ?w0 = "step (OfferChanged entering old0 now0) w"
  have d0: "distinct (itemsInTrade ?w0)"
    and s0: "set (itemsInTrade ?w0) = set (itemsInTrade w) \<union> assetid ` set items"
    using onOfferChanged_active_items[OF assms(1) assms(4), of old0 now0] assms(2,3) by auto
  have d1: "distinct (itemsInTrade w1)"
    and s1: "assetid ` set items \<subseteq> set (itemsInTrade w1)"
    using run_items[OF d0 assms(5)] s0 unfolding w1 by auto
  have d2: "distinct (itemsInTrade w2)"
    and s2: "set (itemsInTrade w2) = set (itemsInTrade w1) - assetid ` set items"
    using onOfferChanged_leaving_items[OF d1 assms(7), of old now] assms(6) unfolding w2 by auto
  show ?thesis
    using d1 d2 s1 s2 by (auto simp: distinct_count_list)
qed

text \<open>
  Claim C7, amended, for offer 1: reported CreatedNeedsConfirmation, then the events
  \<open>other_events\<close>, then reported Accepted.
\<close>

theorem reservation_round_trip_witness:
  "distinct (itemsInTrade init) \<and> item_id item_a1 = assetid item_a1 \<and>
   itemsToGive offer1 = [item_a1] \<and>
   active_family CreatedNeedsConfirmation \<and> \<not> active_family Accepted \<and>
   releases (Enqueue offer2 110) = [] \<and>
   releases (OfferChanged offer1 CreatedNeedsConfirmation 200) = [] \<and>
   releases (OfferChanged (offer3\<lparr>state := Declined\<rparr>) Active 210) = [] \<and>
   count_list (itemsInTrade
     (run other_events
        (step (OfferChanged (offer1\<lparr>state := CreatedNeedsConfirmation\<rparr>) Invalid 100) init)))
     ''a1'' = 1 \<and>
   count_list (itemsInTrade
     (step (OfferChanged (offer1\<lparr>state := Accepted\<rparr>) Active 300)
       (run other_events
          (step (OfferChanged (offer1\<lparr>state := CreatedNeedsConfirmation\<rparr>) Invalid 100) init))))
     ''a1'' = 0"
proof -
  have h: "distinct (itemsInTrade init)" "item_id item_a1 = assetid item_a1"
    "itemsToGive offer1 = [item_a1]" "active_family CreatedNeedsConfirmation"
    "\<not> active_family Accepted" "assetid item_a1 = ''a1''"
    by (simp_all add: init_def item_a1_def offer1_def active_family_def)
  have r: "releases (Enqueue offer2 110) = []"
    "releases (OfferChanged offer1 CreatedNeedsConfirmation 200) = []"
    "releases (OfferChanged (offer3\<lparr>state := Declined\<rparr>) Active 210) = []"
    by (simp_all add: offer1_def offer3_def active_family_def)
  have h2: "\<forall>item\<in>set [item_a1]. item_id item = assetid item" using h by simp
  have h3: "itemsToGive (offer1\<lparr>state := CreatedNeedsConfirmation\<rparr>) = [item_a1]"
    using h by simp
  have h4: "active_family (state (offer1\<lparr>state := CreatedNeedsConfirmation\<rparr>))"
    using h by simp
  have h5: "\<forall>ev\<in>set other_events. set (releases ev) \<inter> assetid ` set [item_a1] = {}"
    using r by (simp add: other_events_def)
  have h6: "itemsToGive (offer1\<lparr>state := Accepted\<rparr>) = [item_a1]" using h by simp
  have h7: "\<not> active_family (state (offer1\<lparr>state := Accepted\<rparr>))" using h by simp
  note T = reservation_round_trip[OF h(1) h2 h3 h4 h5 h6 h7 refl refl,
      where ?old0.0 = Invalid and ?now0.0 = 100 and old = Active and now = 300]
  have c: "count_list (itemsInTrade
     (run other_events
        (step (OfferChanged (offer1\<lparr>state := CreatedNeedsConfirmation\<rparr>) Invalid 100) init)))
     ''a1'' = 1"
    "count_list (itemsInTrade
     (step (OfferChanged (offer1\<lparr>state := Accepted\<rparr>) Active 300)
       (run other_events
          (step (OfferChanged (offer1\<lparr>state := CreatedNeedsConfirmation\<rparr>) Invalid 100) init))))
     ''a1'' = 0"
    using T h(6) by simp_all
  show ?thesis using h r c by blast
qed

text \<open>
  Claim C8.  When the reported state is Accepted or InEscrow, \<open>onOfferChanged\<close> removes
  every given-away item from the inventory cache and then starts the inventory fetch;
  it does not notify the handler.  The handler's \<open>onTradeOfferChanged\<close> is called by the
  callback of that fetch, when it has settled.
\<close>

theorem handler_notified_after_refresh:
  assumes "state offer = Accepted \<or> state offer = InEscrow"
  shows "trace (onOfferChanged offer old now w) =
           trace w @
           [LogTook (js_minus now
              (data_get (data (offer_data_set ''finishTimestamp'' (Some (DNum now))
                                 (offer_data_set ''_ourItems'' None offer))) ''handleTimeStamp''))] @
           map (\<lambda>item. InventoryRemoveItem (assetid item)) (itemsToGive offer) @ [InventoryFetch] \<and>
         refreshing (onOfferChanged offer old now w) =
           refreshing w @ [(offer_data_set ''finishTimestamp'' (Some (DNum now))
                             (offer_data_set ''_ourItems'' None offer), old)] \<and>
         trace (step (InventoryFetched (length (refreshing w))) (onOfferChanged offer old now w)) =
           trace (onOfferChanged offer old now w) @
           [CallOnTradeOfferChanged (offer_data_set ''finishTimestamp'' (Some (DNum now))
                             (offer_data_set ''_ourItems'' None offer)) old]"
  using assms
  by (auto simp: onOfferChanged_def Let_def forEach_unset_fields inventoryFetch_cb_def splice1_def)

text \<open>Claim C8 for offer 1, reported Accepted after Active.\<close>

theorem handler_notified_after_refresh_witness:
  "state (offer1\<lparr>state := Accepted\<rparr>) = Accepted \<and>
   trace (onOfferChanged (offer1\<lparr>state := Accepted\<rparr>) Active 300 init) =
     [LogTook None, InventoryRemoveItem ''a1'', InventoryFetch] \<and>
   trace (step (InventoryFetched 0) (onOfferChanged (offer1\<lparr>state := Accepted\<rparr>) Active 300 init)) =
     [LogTook None, InventoryRemoveItem ''a1'', InventoryFetch,
      CallOnTradeOfferChanged
        (offer_data_set ''finishTimestamp'' (Some (DNum 300))
           (offer_data_set ''_ourItems'' None (offer1\<lparr>state := Accepted\<rparr>))) Active]"
proof -
  have s: "state (offer1\<lparr>state := Accepted\<rparr>) = Accepted" by simp
  note T = handler_notified_after_refresh[OF disjI1[OF s], of Active 300 init]
  have t1: "trace (onOfferChanged (offer1\<lparr>state := Accepted\<rparr>) Active 300 init) =
     [LogTook None, InventoryRemoveItem ''a1'', InventoryFetch]"
    unfolding T[THEN conjunct1]
    by (simp add: init_def offer1_def item_a1_def offer_data_set_def data_set_def data_get_def
        js_minus_def)
  have t2: "trace (step (InventoryFetched 0) (onOfferChanged (offer1\<lparr>state := Accepted\<rparr>) Active 300 init)) =
     [LogTook None, InventoryRemoveItem ''a1'', InventoryFetch,
      CallOnTradeOfferChanged
        (offer_data_set ''finishTimestamp'' (Some (DNum 300))
           (offer_data_set ''_ourItems'' None (offer1\<lparr>state := Accepted\<rparr>))) Active]"
    using T[THEN conjunct2, THEN conjunct2] unfolding t1 by (simp add: init_def)
  show ?thesis using s t1 t2 by blast
qed

text \<open>
  \<open>handlerProcessOffer\<close> stamps the key \<open>handleTimestamp\<close>; \<open>onOfferChanged\<close> reads the key
  \<open>handleTimeStamp\<close>, which the stamp leaves as it was.
\<close>

lemma handleTimestamp_is_another_key:
  "data_get (data (offer_data_set ''handleTimestamp'' (Some (DNum start)) offer)) ''handleTimestamp'' =
     Some (DNum start) \<and>
   data_get (data (offer_data_set ''handleTimestamp'' (Some (DNum start)) offer)) ''handleTimeStamp'' =
     data_get (data offer) ''handleTimeStamp''"
  by (simp add: offer_data_set_def data_get_set)

text \<open>
  Claim C9 says that the logged duration is the finish timestamp minus the
  handling-started timestamp whenever the pipeline stamped one.  The code reads the
  timestamp under the key \<open>handleTimeStamp\<close>, while the pipeline stamps
  \<open>handleTimestamp\<close>: for an offer that leaves the active family and has nothing under
  \<open>handleTimeStamp\<close>, whatever it has under \<open>handleTimestamp\<close>, the subtraction is \<open>NaN\<close>
  and the log line says \<open>unknown\<close>; no number is logged.
\<close>

theorem processing_duration_unknown:
  assumes "data_get (data offer) ''handleTimeStamp'' = None" "\<not> active_family (state offer)"
  shows "LogTook None \<in> set (trace (onOfferChanged offer old now w)) \<and>
         (\<forall>d. LogTook (Some d) \<notin>
                set (drop (length (trace w)) (trace (onOfferChanged offer old now w))))"
  using assms
  by (auto simp: onOfferChanged_def Let_def forEach_unset_fields active_family_def
      offer_data_set_def data_get_set js_minus_def)

text \<open>
  Claim C9 at a concrete input: offer 2 was handed to the handler at time 100, which
  stamped \<open>handleTimestamp = 100\<close>; at time 5000 it is reported Declined.  The log line
  says \<open>unknown\<close>, not 4900.
\<close>

theorem processing_duration_unknown_witness:
  "pending (enqueueOffer offer2 100 init) =
     [Handler (offer_data_set ''handleTimestamp'' (Some (DNum 100)) offer2) 100] \<and>
   data_get (data (offer_data_set ''handleTimestamp'' (Some (DNum 100)) offer2)) ''handleTimestamp'' =
     Some (DNum 100) \<and>
   data_get (data (offer_data_set ''handleTimestamp'' (Some (DNum 100)) offer2)) ''handleTimeStamp'' =
     None \<and>
   \<not> active_family Declined \<and>
   LogTook None \<in> set (trace (onOfferChanged
            ((offer_data_set ''handleTimestamp'' (Some (DNum 100)) offer2)\<lparr>state := Declined\<rparr>)
            Active 5000 init)) \<and>
   LogTook (Some 4900) \<notin> set (drop (length (trace init)) (trace (onOfferChanged
            ((offer_data_set ''handleTimestamp'' (Some (DNum 100)) offer2)\<lparr>state := Declined\<rparr>)
            Active 5000 init))) \<and>
   trace (onOfferChanged
            ((offer_data_set ''handleTimestamp'' (Some (DNum 100)) offer2)\<lparr>state := Declined\<rparr>)
            Active 5000 init) =
     [LogTook None,
      CallOnTradeOfferChanged
        (offer_data_set ''finishTimestamp'' (Some (DNum 5000))
           (offer_data_set ''_ourItems'' None
              ((offer_data_set ''handleTimestamp'' (Some (DNum 100)) offer2)\<lparr>state := Declined\<rparr>)))
        Active]"
proof -
  have p: "pending (enqueueOffer offer2 100 init) =
     [Handler (offer_data_set ''handleTimestamp'' (Some (DNum 100)) offer2) 100]"
    by (simp add: init_def offer2_def enqueueOffer_def handlerProcessOffer_def Let_def)
  have k: "data_get (data (offer_data_set ''handleTimestamp'' (Some (DNum 100)) offer2)) ''handleTimestamp'' =
     Some (DNum 100)"
    "data_get (data (offer_data_set ''handleTimestamp'' (Some (DNum 100)) offer2)) ''handleTimeStamp'' =
     None"
    by (simp_all add: offer2_def offer_data_set_def data_set_def data_get_def)
  have k': "data_get (data ((offer_data_set ''handleTimestamp'' (Some (DNum 100)) offer2)\<lparr>state := Declined\<rparr>))
      ''handleTimeStamp'' = None"
    using k by simp
  have a: "\<not> active_family Declined" by (simp add: active_family_def)
  have a': "\<not> active_family (state ((offer_data_set ''handleTimestamp'' (Some (DNum 100)) offer2)\<lparr>state := Declined\<rparr>))"
    using a by simp
  note T = processing_duration_unknown[OF k' a', of Active 5000 init]
  have e: "trace (onOfferChanged
            ((offer_data_set ''handleTimestamp'' (Some (DNum 100)) offer2)\<lparr>state := Declined\<rparr>)
            Active 5000 init) =
     [LogTook None,
      CallOnTradeOfferChanged
        (offer_data_set ''finishTimestamp'' (Some (DNum 5000))
           (offer_data_set ''_ourItems'' None
              ((offer_data_set ''handleTimestamp'' (Some (DNum 100)) offer2)\<lparr>state := Declined\<rparr>)))
        Active]"
    by (simp add: init_def offer2_def offer_data_set_def data_set_def data_get_def js_minus_def
        onOfferChanged_def Let_def)
  show ?thesis using p k a T e by blast
qed

end
